theory Spec2Isabelle
  imports Main "HOL-Library.Sublist"
begin

section \<open>Data model of dagUtils\<close>

text \<open>
  A graph node and a graph edge, with the fields the algorithms read. The layout fields of the
  source (position, type, animated, markerEnd) are never read by the algorithms and are left out.
\<close>

record GraphNode =
  node_id :: string
  node_label :: string

record GraphEdge =
  edge_id :: string
  source :: string
  target :: string

text \<open>
  A JavaScript \<open>Map\<close> is an association list in insertion order with unique keys:
  \<open>get\<close> reads the entry of a key, \<open>set\<close> overwrites the entry in place or appends a new one.
\<close>

type_synonym ('k, 'v) jsmap = "('k \<times> 'v) list"

fun map_set :: "'k \<Rightarrow> 'v \<Rightarrow> ('k, 'v) jsmap \<Rightarrow> ('k, 'v) jsmap" where
  "map_set k v [] = [(k, v)]"
| "map_set k v ((k', v') # m) = (if k' = k then (k, v) # m else (k', v') # map_set k v m)"

definition map_get :: "('k, 'v) jsmap \<Rightarrow> 'k \<Rightarrow> 'v option" where
  "map_get m k = map_of m k"

definition map_has :: "('k, 'v) jsmap \<Rightarrow> 'k \<Rightarrow> bool" where
  "map_has m k = (map_get m k \<noteq> None)"

text \<open>\<open>m.get(k) || []\<close> and \<open>m.get(k) || 0\<close>: a missing entry reads as the default.\<close>

definition get_or_empty :: "('k, 'v list) jsmap \<Rightarrow> 'k \<Rightarrow> 'v list" where
  "get_or_empty m k = (case map_get m k of None \<Rightarrow> [] | Some vs \<Rightarrow> vs)"

definition get_or_zero :: "('k, int) jsmap \<Rightarrow> 'k \<Rightarrow> int" where
  "get_or_zero m k = (case map_get m k of None \<Rightarrow> 0 | Some v \<Rightarrow> v)"

text \<open>
  A JavaScript \<open>Set\<close> is a list without repetition, in insertion order.
\<close>

type_synonym 'a jsset = "'a list"

definition set_has :: "'a jsset \<Rightarrow> 'a \<Rightarrow> bool" where
  "set_has s x = (x \<in> set s)"

definition set_add :: "'a \<Rightarrow> 'a jsset \<Rightarrow> 'a jsset" where
  "set_add x s = (if x \<in> set s then s else s @ [x])"

definition set_delete :: "'a \<Rightarrow> 'a jsset \<Rightarrow> 'a jsset" where
  "set_delete x s = filter (\<lambda>y. y \<noteq> x) s"

definition new_Set :: "'a list \<Rightarrow> 'a jsset" where
  "new_Set xs = fold set_add xs []"

section \<open>Graph representation builders\<close>

text \<open>
  \<open>buildAdjacencyList\<close>: for each edge in order, create the entry of the source when it is
  missing, then push the target onto it. \<open>buildReverseAdjacencyList\<close> does the same keyed by the
  target, pushing the source: the entry of a node lists the sources of the edges into it.
  \<open>calculateInDegrees\<close> sets every node to 0 and then adds 1 per edge at the edge's target.
\<close>

definition buildAdjacencyList :: "GraphEdge list \<Rightarrow> (string, string list) jsmap" where
  "buildAdjacencyList edges =
     fold (\<lambda>edge adjList.
             let adjList' = (if \<not> map_has adjList (source edge)
                             then map_set (source edge) [] adjList else adjList)
             in map_set (source edge) (get_or_empty adjList' (source edge) @ [target edge]) adjList')
          edges []"

definition buildReverseAdjacencyList :: "GraphEdge list \<Rightarrow> (string, string list) jsmap" where
  "buildReverseAdjacencyList edges =
     fold (\<lambda>edge adjList.
             let adjList' = (if \<not> map_has adjList (target edge)
                             then map_set (target edge) [] adjList else adjList)
             in map_set (target edge) (get_or_empty adjList' (target edge) @ [source edge]) adjList')
          edges []"

definition calculateInDegrees :: "GraphNode list \<Rightarrow> GraphEdge list \<Rightarrow> (string, int) jsmap" where
  "calculateInDegrees nodes edges =
     fold (\<lambda>edge inDegrees.
             let currentInDegree = get_or_zero inDegrees (target edge)
             in map_set (target edge) (currentInDegree + 1) inDegrees)
          edges
          (fold (\<lambda>node inDegrees. map_set (node_id node) 0 inDegrees) nodes [])"

text \<open>The visited map every trace generator starts from: every node id mapped to 0.\<close>

definition init_visited :: "GraphNode list \<Rightarrow> (string, int) jsmap" where
  "init_visited nodes = fold (\<lambda>node visited. map_set (node_id node) 0 visited) nodes []"

section \<open>Cycle detector\<close>

text \<open>
  The inner function \<open>dfs\<close> of \<open>hasCycle\<close> and its \<open>for\<close> loop over the neighbours. Both
  thread the two sets \<open>visited\<close> and \<open>recursionStack\<close>; the boolean is the value returned.
  When the loop returns \<open>true\<close> the node stays on the recursion stack, as in the source.
\<close>

type_synonym cycle_state = "string jsset \<times> string jsset"

function hasCycle_dfs :: "(string, string list) jsmap \<Rightarrow> string \<Rightarrow> cycle_state \<Rightarrow> bool \<times> cycle_state"
  and hasCycle_for :: "(string, string list) jsmap \<Rightarrow> string list \<Rightarrow> cycle_state \<Rightarrow> bool \<times> cycle_state"
  where
  "hasCycle_dfs adjList nodeId (visited, recursionStack) =
     (case hasCycle_for adjList (get_or_empty adjList nodeId)
             (set_add nodeId visited, set_add nodeId recursionStack) of
        (True, st) \<Rightarrow> (True, st)
      | (False, (visited', recursionStack')) \<Rightarrow>
          (False, (visited', set_delete nodeId recursionStack')))"
| "hasCycle_for adjList [] st = (False, st)"
| "hasCycle_for adjList (neighbor # rest) (visited, recursionStack) =
     (if \<not> set_has visited neighbor then
        (case hasCycle_dfs adjList neighbor (visited, recursionStack) of
           (True, st) \<Rightarrow> (True, st)
         | (False, st) \<Rightarrow> hasCycle_for adjList rest st)
      else if set_has recursionStack neighbor then (True, (visited, recursionStack))
      else hasCycle_for adjList rest (visited, recursionStack))"
  by pat_completeness auto


definition adj_targets :: "(string, string list) jsmap \<Rightarrow> string set" where
  "adj_targets adjList = (\<Union>(k, vs) \<in> set adjList. set vs)"

lemma get_or_empty_targets: "set (get_or_empty adjList k) \<subseteq> adj_targets adjList"
proof (cases "map_of adjList k")
  case None
  then show ?thesis by (simp add: get_or_empty_def map_get_def)
next
  case (Some vs)
  then have "(k, vs) \<in> set adjList" by (rule map_of_SomeD)
  then have "set vs \<subseteq> adj_targets adjList" by (auto simp: adj_targets_def)
  with Some show ?thesis by (simp add: get_or_empty_def map_get_def)
qed

lemma finite_adj_targets: "finite (adj_targets adjList)"
  by (auto simp: adj_targets_def)

lemma set_set_add [simp]: "set (set_add x s) = insert x (set s)"
  by (auto simp: set_add_def)

lemma set_set_delete [simp]: "set (set_delete x s) = set s - {x}"
  by (auto simp: set_delete_def)

lemma hasCycle_visited_grows:
  "hasCycle_dfs_hasCycle_for_dom (Inl (adjList, nodeId, st)) \<Longrightarrow>
     set (fst st) \<subseteq> set (fst (snd (hasCycle_dfs adjList nodeId st)))"
  "hasCycle_dfs_hasCycle_for_dom (Inr (adjList, ws, st)) \<Longrightarrow>
     set (fst st) \<subseteq> set (fst (snd (hasCycle_for adjList ws st)))"
proof (induct rule: hasCycle_dfs_hasCycle_for.pinduct)
  case (1 adjList nodeId visited recursionStack)
  then show ?case
    by (auto simp: hasCycle_dfs.psimps split: prod.splits bool.splits)
next
  case (2 adjList st)
  then show ?case by (simp add: hasCycle_for.psimps)
next
  case (3 adjList neighbor rest visited recursionStack)
  show ?case
  proof (cases "set_has visited neighbor")
    case True
    with 3 show ?thesis by (auto simp: hasCycle_for.psimps)
  next
    case False
    obtain b st' where r: "hasCycle_dfs adjList neighbor (visited, recursionStack) = (b, st')"
      by (cases "hasCycle_dfs adjList neighbor (visited, recursionStack)") 
    from 3(2)[OF False] r have g1: "set visited \<subseteq> set (fst st')" by simp
    show ?thesis
    proof (cases b)
      case True
      with False r g1 3(1) show ?thesis by (simp add: hasCycle_for.psimps)
    next
      case bF: False
      from bF have "b = False" by simp
      from 3(3)[OF False r[symmetric] this] have "set (fst st') \<subseteq> set (fst (snd (hasCycle_for adjList rest st')))" .
      with False r g1 bF 3(1) show ?thesis by (auto simp add: hasCycle_for.psimps)
    qed
  qed
qed

definition hasCycle_measure ::
  "((string, string list) jsmap \<times> string \<times> cycle_state) + ((string, string list) jsmap \<times> string list \<times> cycle_state)
   \<Rightarrow> nat \<times> nat \<times> nat" where
  "hasCycle_measure x =
     (case x of
        Inl (adjList, nodeId, (visited, recursionStack)) \<Rightarrow>
          (card ((adj_targets adjList \<union> {nodeId}) - set visited),
           if nodeId \<in> set visited then 2 else 0, 0)
      | Inr (adjList, ws, (visited, recursionStack)) \<Rightarrow>
          (card ((adj_targets adjList \<union> set ws) - set visited), 1, length ws))"

termination hasCycle_dfs
proof (relation "inv_image (less_than <*lex*> less_than <*lex*> less_than) hasCycle_measure")
  show "wf (inv_image (less_than <*lex*> less_than <*lex*> less_than) hasCycle_measure)"
    by (intro wf_inv_image wf_lex_prod wf_less_than)
next
  fix adjList :: "(string, string list) jsmap" and nodeId :: string
    and visited recursionStack :: "string jsset"
  let ?U = "adj_targets adjList"
  have sub: "set (get_or_empty adjList nodeId) \<subseteq> ?U" by (rule get_or_empty_targets)
  have fin: "finite ((?U \<union> {nodeId}) - set visited)" by (simp add: finite_adj_targets)
  show "(Inr (adjList, get_or_empty adjList nodeId, set_add nodeId visited, set_add nodeId recursionStack),
         Inl (adjList, nodeId, visited, recursionStack))
        \<in> inv_image (less_than <*lex*> less_than <*lex*> less_than) hasCycle_measure"
  proof (cases "nodeId \<in> set visited")
    case True
    have "(?U \<union> set (get_or_empty adjList nodeId)) - insert nodeId (set visited)
          = (?U \<union> {nodeId}) - set visited" using True sub by auto
    then show ?thesis using True by (simp add: hasCycle_measure_def)
  next
    case False
    have "(?U \<union> set (get_or_empty adjList nodeId)) - insert nodeId (set visited)
          \<subset> (?U \<union> {nodeId}) - set visited" using False sub by auto
    then have "card ((?U \<union> set (get_or_empty adjList nodeId)) - insert nodeId (set visited))
          < card ((?U \<union> {nodeId}) - set visited)" using fin by (rule psubset_card_mono[rotated])
    then show ?thesis using False by (simp add: hasCycle_measure_def)
  qed
next
  fix adjList :: "(string, string list) jsmap" and neighbor :: string and rest :: "string list"
    and visited recursionStack :: "string jsset"
  assume nv: "\<not> set_has visited neighbor"
  let ?U = "adj_targets adjList"
  have "card ((?U \<union> {neighbor}) - set visited) \<le> card ((?U \<union> set (neighbor # rest)) - set visited)"
    by (rule card_mono) (auto simp: finite_adj_targets)
  then show "(Inl (adjList, neighbor, visited, recursionStack),
         Inr (adjList, neighbor # rest, visited, recursionStack))
        \<in> inv_image (less_than <*lex*> less_than <*lex*> less_than) hasCycle_measure"
    using nv by (auto simp: hasCycle_measure_def set_has_def)
next
  fix adjList :: "(string, string list) jsmap" and neighbor :: string and rest :: "string list"
    and visited recursionStack :: "string jsset" and x :: bool and y :: cycle_state
  assume nv: "\<not> set_has visited neighbor"
    and r: "(x, y) = hasCycle_dfs adjList neighbor (visited, recursionStack)"
    and dom: "hasCycle_dfs_hasCycle_for_dom (Inl (adjList, neighbor, visited, recursionStack))"
  let ?U = "adj_targets adjList"
  from hasCycle_visited_grows(1)[OF dom] r[symmetric] have g: "set visited \<subseteq> set (fst y)" by simp
  have "card ((?U \<union> set rest) - set (fst y)) \<le> card ((?U \<union> set (neighbor # rest)) - set visited)"
    by (rule card_mono) (use g in \<open>auto simp: finite_adj_targets\<close>)
  then show "(Inr (adjList, rest, y), Inr (adjList, neighbor # rest, visited, recursionStack))
        \<in> inv_image (less_than <*lex*> less_than <*lex*> less_than) hasCycle_measure"
    by (cases y) (auto simp: hasCycle_measure_def)
next
  fix adjList :: "(string, string list) jsmap" and neighbor :: string and rest :: "string list"
    and visited recursionStack :: "string jsset"
  let ?U = "adj_targets adjList"
  have "card ((?U \<union> set rest) - set visited) \<le> card ((?U \<union> set (neighbor # rest)) - set visited)"
    by (rule card_mono) (auto simp: finite_adj_targets)
  then show "(Inr (adjList, rest, visited, recursionStack),
         Inr (adjList, neighbor # rest, visited, recursionStack))
        \<in> inv_image (less_than <*lex*> less_than <*lex*> less_than) hasCycle_measure"
    by (auto simp: hasCycle_measure_def)
qed


text \<open>The loop of \<open>hasCycle\<close> over the node list.\<close>

fun hasCycle_nodes :: "(string, string list) jsmap \<Rightarrow> GraphNode list \<Rightarrow> cycle_state \<Rightarrow> bool" where
  "hasCycle_nodes adjList [] st = False"
| "hasCycle_nodes adjList (node # rest) (visited, recursionStack) =
     (if \<not> set_has visited (node_id node) then
        (case hasCycle_dfs adjList (node_id node) (visited, recursionStack) of
           (True, st) \<Rightarrow> True
         | (False, st) \<Rightarrow> hasCycle_nodes adjList rest st)
      else hasCycle_nodes adjList rest (visited, recursionStack))"

definition hasCycle :: "GraphNode list \<Rightarrow> GraphEdge list \<Rightarrow> bool" where
  "hasCycle nodes edges = hasCycle_nodes (buildAdjacencyList edges) nodes ([], [])"

section \<open>Topological trace generator\<close>

text \<open>
  The three record types of the source share the field names \<open>queue\<close>, \<open>visited\<close> and
  \<open>currentNode\<close>; here the fields carry the prefixes \<open>t_\<close>, \<open>d_\<close> and \<open>b_\<close>. A record holds a
  copy of the visited map (\<open>new Map(visited)\<close>), which is the value of the map at that point.
\<close>

record TopoStep =
  t_removedNode :: string
  t_queue :: "string list"
  t_visited :: "(string, int) jsmap"

text \<open>
  The \<open>while (remaining.size > 0)\<close> loop of \<open>topologicalSortStepsDetailed\<close>. The state is the
  in-degree map, the visited map, the remaining set and the steps pushed so far.
\<close>

function topo_while ::
  "(string, string list) jsmap \<Rightarrow> (string, int) jsmap \<Rightarrow> (string, int) jsmap \<Rightarrow>
   string jsset \<Rightarrow> TopoStep list \<Rightarrow> TopoStep list" where
  "topo_while adjList inDegrees visited remaining steps =
     (if length remaining > 0 then
        (case filter (\<lambda>nodeId. get_or_zero inDegrees nodeId = 0) remaining of
           [] \<Rightarrow> steps
         | removedNode # _ \<Rightarrow>
             (let remaining' = set_delete removedNode remaining;
                  visited' = map_set removedNode 1 visited;
                  neighbors = get_or_empty adjList removedNode;
                  inDegrees' = fold (\<lambda>neighbor m.
                                  let currentInDegree = get_or_zero m neighbor
                                  in map_set neighbor (currentInDegree - 1) m) neighbors inDegrees;
                  nextQueue = filter (\<lambda>nodeId. get_or_zero inDegrees' nodeId = 0) remaining'
              in topo_while adjList inDegrees' visited' remaining'
                   (steps @ [\<lparr>t_removedNode = removedNode, t_queue = nextQueue,
                              t_visited = visited'\<rparr>])))
      else steps)"
  by pat_completeness auto
termination
proof (relation "measure (\<lambda>(adjList, inDegrees, visited, remaining, steps). length remaining)")
  show "wf (measure (\<lambda>(adjList, inDegrees, visited, remaining, steps). length remaining))"
    by simp
next
  fix adjList :: "(string, string list) jsmap"
  fix inDegrees visited :: "(string, int) jsmap"
  fix remaining :: "string jsset" and steps :: "TopoStep list"
  fix x21 x22 xa xb xc xd xe
  assume f: "filter (\<lambda>nodeId. get_or_zero inDegrees nodeId = 0) remaining = x21 # x22"
    and xa: "xa = set_delete x21 remaining"
  from f have "x21 \<in> set (filter (\<lambda>nodeId. get_or_zero inDegrees nodeId = 0) remaining)"
    by simp
  then have "x21 \<in> set remaining" by simp
  then have "length (filter (\<lambda>y. y \<noteq> x21) remaining) < length remaining"
    by (simp add: length_filter_less)
  then show "((adjList, xe, xb, xa, steps @ [\<lparr>t_removedNode = x21, t_queue = xd, t_visited = xb\<rparr>]),
              (adjList, inDegrees, visited, remaining, steps))
             \<in> measure (\<lambda>(adjList, inDegrees, visited, remaining, steps). length remaining)"
    using xa by (simp add: set_delete_def)
qed

definition topologicalSortStepsDetailed :: "GraphNode list \<Rightarrow> GraphEdge list \<Rightarrow> TopoStep list" where
  "topologicalSortStepsDetailed nodes edges =
     topo_while (buildReverseAdjacencyList edges) (calculateInDegrees nodes edges)
       (init_visited nodes) (new_Set (map node_id nodes)) []"

section \<open>DFS trace generator\<close>

text \<open>
  The inner function \<open>dfs(nodeId, stack)\<close> of \<open>dfsStepsDetailed\<close> and its \<open>for\<close> loop over the
  neighbours. The state threaded through is the visited map and the steps pushed so far. A
  neighbour is entered only when its visited entry is exactly 0 (\<open>visited.get(neighbor) === 0\<close>);
  \<open>newStack.pop()\<close> drops the last element.
\<close>

record DFSStep =
  d_currentNode :: string
  d_stack :: "string list"
  d_visited :: "(string, int) jsmap"

type_synonym dfs_state = "(string, int) jsmap \<times> DFSStep list"

function dfsStepsDetailed_dfs ::
    "(string, string list) jsmap \<Rightarrow> string \<Rightarrow> string list \<Rightarrow> dfs_state \<Rightarrow> dfs_state"
  and dfsStepsDetailed_for ::
    "(string, string list) jsmap \<Rightarrow> string list \<Rightarrow> string list \<Rightarrow> dfs_state \<Rightarrow> dfs_state"
  where
  "dfsStepsDetailed_dfs adjList nodeId stack (visited, steps) =
     (case dfsStepsDetailed_for adjList (get_or_empty adjList nodeId) (stack @ [nodeId])
             (map_set nodeId 1 visited,
              steps @ [\<lparr>d_currentNode = nodeId, d_stack = stack @ [nodeId], d_visited = visited\<rparr>,
                       \<lparr>d_currentNode = nodeId, d_stack = stack @ [nodeId],
                        d_visited = map_set nodeId 1 visited\<rparr>]) of
        (visited', steps') \<Rightarrow>
          (if length (stack @ [nodeId]) > 0
           then (visited', steps' @ [\<lparr>d_currentNode = nodeId, d_stack = butlast (stack @ [nodeId]),
                                      d_visited = visited'\<rparr>])
           else (visited', steps')))"
| "dfsStepsDetailed_for adjList [] newStack st = st"
| "dfsStepsDetailed_for adjList (neighbor # rest) newStack (visited, steps) =
     (if map_get visited neighbor = Some 0
      then dfsStepsDetailed_for adjList rest newStack
             (dfsStepsDetailed_dfs adjList neighbor newStack (visited, steps))
      else dfsStepsDetailed_for adjList rest newStack (visited, steps))"
  by pat_completeness auto

definition unvisited :: "(string, int) jsmap \<Rightarrow> string set" where
  "unvisited visited = {k. map_get visited k = Some 0}"

lemma map_of_map_set [simp]: "map_of (map_set k v m) = (map_of m)(k \<mapsto> v)"
  by (induction m) (auto simp: fun_eq_iff)

lemma map_get_map_set [simp]: "map_get (map_set k v m) k' = (if k' = k then Some v else map_get m k')"
  by (simp add: map_get_def)

lemma finite_unvisited [simp]: "finite (unvisited visited)"
proof -
  have "unvisited visited \<subseteq> fst ` set visited"
    by (auto simp: unvisited_def map_get_def dest!: map_of_SomeD intro: rev_image_eqI)
  then show ?thesis by (rule finite_subset) simp
qed

lemma unvisited_map_set_1 [simp]: "unvisited (map_set k 1 visited) = unvisited visited - {k}"
  by (auto simp: unvisited_def)

lemma dfs_unvisited_shrinks:
  "dfsStepsDetailed_dfs_dfsStepsDetailed_for_dom (Inl (adjList, nodeId, stack, st)) \<Longrightarrow>
     unvisited (fst (dfsStepsDetailed_dfs adjList nodeId stack st)) \<subseteq> unvisited (fst st)"
  "dfsStepsDetailed_dfs_dfsStepsDetailed_for_dom (Inr (adjList, ws, newStack, st)) \<Longrightarrow>
     unvisited (fst (dfsStepsDetailed_for adjList ws newStack st)) \<subseteq> unvisited (fst st)"
proof (induct rule: dfsStepsDetailed_dfs_dfsStepsDetailed_for.pinduct)
  case (1 adjList nodeId stack visited steps)
  then show ?case
    by (auto simp: dfsStepsDetailed_dfs.psimps split: prod.splits)
next
  case (2 adjList newStack st)
  then show ?case by (simp add: dfsStepsDetailed_for.psimps)
next
  case (3 adjList neighbor rest newStack visited steps)
  then show ?case
    by (auto simp: dfsStepsDetailed_for.psimps)
qed

definition dfs_measure ::
  "((string, string list) jsmap \<times> string \<times> string list \<times> dfs_state) +
   ((string, string list) jsmap \<times> string list \<times> string list \<times> dfs_state) \<Rightarrow> nat \<times> nat \<times> nat" where
  "dfs_measure x =
     (case x of
        Inl (adjList, nodeId, stack, (visited, steps)) \<Rightarrow>
          (card (unvisited visited), if nodeId \<in> unvisited visited then 0 else 2, 0)
      | Inr (adjList, ws, newStack, (visited, steps)) \<Rightarrow>
          (card (unvisited visited), 1, length ws))"

termination dfsStepsDetailed_dfs
proof (relation "inv_image (less_than <*lex*> less_than <*lex*> less_than) dfs_measure")
  show "wf (inv_image (less_than <*lex*> less_than <*lex*> less_than) dfs_measure)"
    by (intro wf_inv_image wf_lex_prod wf_less_than)
next
  fix adjList :: "(string, string list) jsmap" and nodeId :: string and stack :: "string list"
    and visited :: "(string, int) jsmap" and steps :: "DFSStep list"
  show "(Inr (adjList, get_or_empty adjList nodeId, stack @ [nodeId], map_set nodeId 1 visited,
              steps @ [\<lparr>d_currentNode = nodeId, d_stack = stack @ [nodeId], d_visited = visited\<rparr>,
                       \<lparr>d_currentNode = nodeId, d_stack = stack @ [nodeId],
                        d_visited = map_set nodeId 1 visited\<rparr>]),
         Inl (adjList, nodeId, stack, visited, steps))
        \<in> inv_image (less_than <*lex*> less_than <*lex*> less_than) dfs_measure"
  proof (cases "nodeId \<in> unvisited visited")
    case True
    then have "card (unvisited visited - {nodeId}) < card (unvisited visited)"
      by (intro card_Diff1_less) simp_all
    then show ?thesis using True by (simp add: dfs_measure_def del: card_Diff_insert)
  next
    case False
    then show ?thesis by (simp add: dfs_measure_def)
  qed
next
  fix adjList :: "(string, string list) jsmap" and neighbor :: string
    and rest newStack :: "string list"
    and visited :: "(string, int) jsmap" and steps :: "DFSStep list"
  assume "map_get visited neighbor = Some 0"
  then show "(Inl (adjList, neighbor, newStack, visited, steps),
         Inr (adjList, neighbor # rest, newStack, visited, steps))
        \<in> inv_image (less_than <*lex*> less_than <*lex*> less_than) dfs_measure"
    by (simp add: dfs_measure_def unvisited_def)
next
  fix adjList :: "(string, string list) jsmap" and neighbor :: string
    and rest newStack :: "string list"
    and visited :: "(string, int) jsmap" and steps :: "DFSStep list"
  assume dom: "dfsStepsDetailed_dfs_dfsStepsDetailed_for_dom
                 (Inl (adjList, neighbor, newStack, visited, steps))"
  let ?st = "dfsStepsDetailed_dfs adjList neighbor newStack (visited, steps)"
  from dfs_unvisited_shrinks(1)[OF dom]
  have "card (unvisited (fst ?st)) \<le> card (unvisited visited)"
    by (intro card_mono) simp_all
  then show "(Inr (adjList, rest, newStack, ?st),
         Inr (adjList, neighbor # rest, newStack, visited, steps))
        \<in> inv_image (less_than <*lex*> less_than <*lex*> less_than) dfs_measure"
    by (cases ?st) (auto simp: dfs_measure_def)
next
  fix adjList :: "(string, string list) jsmap" and neighbor :: string
    and rest newStack :: "string list"
    and visited :: "(string, int) jsmap" and steps :: "DFSStep list"
  show "(Inr (adjList, rest, newStack, visited, steps),
         Inr (adjList, neighbor # rest, newStack, visited, steps))
        \<in> inv_image (less_than <*lex*> less_than <*lex*> less_than) dfs_measure"
    by (simp add: dfs_measure_def)
qed

text \<open>\<open>startNodeId || nodes[0]?.id\<close>: an absent or empty start id falls back to the first node.\<close>

definition js_truthy :: "string option \<Rightarrow> bool" where
  "js_truthy x = (case x of None \<Rightarrow> False | Some s \<Rightarrow> s \<noteq> [])"

definition startNode_of :: "GraphNode list \<Rightarrow> string option \<Rightarrow> string option" where
  "startNode_of nodes startNodeId =
     (if js_truthy startNodeId then startNodeId
      else (case nodes of [] \<Rightarrow> None | node # _ \<Rightarrow> Some (node_id node)))"

definition dfsStepsDetailed :: "GraphNode list \<Rightarrow> GraphEdge list \<Rightarrow> string option \<Rightarrow> DFSStep list" where
  "dfsStepsDetailed nodes edges startNodeId =
     (case startNode_of nodes startNodeId of
        None \<Rightarrow> []
      | Some startNode \<Rightarrow>
          if startNode \<noteq> []
          then snd (dfsStepsDetailed_dfs (buildAdjacencyList edges) startNode []
                      (init_visited nodes, []))
          else [])"

section \<open>BFS trace generator\<close>

text \<open>
  The \<open>for\<close> loop over the neighbours of the dequeued node and the \<open>while (queue.length > 0)\<close>
  loop of \<open>bfsStepsDetailed\<close>. The state is the visited map, the queue and the steps pushed so
  far; \<open>queue.shift()\<close> takes the head.
\<close>

record BFSStep =
  b_currentNode :: string
  b_queue :: "string list"
  b_visited :: "(string, int) jsmap"

type_synonym bfs_state = "(string, int) jsmap \<times> string list \<times> BFSStep list"

fun bfsStepsDetailed_for :: "string \<Rightarrow> string list \<Rightarrow> bfs_state \<Rightarrow> bfs_state" where
  "bfsStepsDetailed_for currentNode [] st = st"
| "bfsStepsDetailed_for currentNode (neighbor # rest) (visited, queue, steps) =
     (if map_get visited neighbor = Some 0
      then bfsStepsDetailed_for currentNode rest
             (map_set neighbor 1 visited, queue @ [neighbor],
              steps @ [\<lparr>b_currentNode = currentNode, b_queue = queue @ [neighbor],
                        b_visited = map_set neighbor 1 visited\<rparr>])
      else bfsStepsDetailed_for currentNode rest (visited, queue, steps))"

lemma bfs_for_measure:
  "bfsStepsDetailed_for currentNode ws (visited, queue, steps) = (visited', queue', steps') \<Longrightarrow>
   card (unvisited visited') + length queue' = card (unvisited visited) + length queue"
proof (induction ws arbitrary: visited queue steps)
  case Nil
  then show ?case by simp
next
  case (Cons w ws)
  show ?case
  proof (cases "map_get visited w = Some 0")
    case True
    then have "w \<in> unvisited visited" by (simp add: unvisited_def)
    then have "card (unvisited visited - {w}) < card (unvisited visited)"
      by (intro card_Diff1_less) simp_all
    moreover from \<open>w \<in> unvisited visited\<close>
    have "card (unvisited visited - {w}) = card (unvisited visited) - 1"
      by (simp add: card_Diff_singleton)
    ultimately have "card (unvisited visited - {w}) + 1 = card (unvisited visited)"
      by arith
    moreover from Cons.prems True have "card (unvisited visited') + length queue' =
      card (unvisited (map_set w 1 visited)) + length (queue @ [w])"
      by (intro Cons.IH) simp
    ultimately show ?thesis by (simp del: card_Diff_insert)
  next
    case False
    with Cons show ?thesis by simp
  qed
qed

function bfsStepsDetailed_while :: "(string, string list) jsmap \<Rightarrow> bfs_state \<Rightarrow> BFSStep list" where
  "bfsStepsDetailed_while adjList (visited, queue, steps) =
     (case queue of
        [] \<Rightarrow> steps
      | currentNode # queue' \<Rightarrow>
          bfsStepsDetailed_while adjList
            (bfsStepsDetailed_for currentNode (get_or_empty adjList currentNode)
               (visited, queue',
                steps @ [\<lparr>b_currentNode = currentNode, b_queue = queue', b_visited = visited\<rparr>])))"
  by pat_completeness auto
termination
proof (relation "measure (\<lambda>(adjList, visited, queue, steps). card (unvisited visited) + length queue)")
  show "wf (measure (\<lambda>(adjList, visited, queue, steps). card (unvisited visited) + length queue))"
    by simp
next
  fix adjList :: "(string, string list) jsmap" and visited :: "(string, int) jsmap"
    and queue queue' :: "string list" and steps :: "BFSStep list" and currentNode :: string
  assume q: "queue = currentNode # queue'"
  let ?st = "bfsStepsDetailed_for currentNode (get_or_empty adjList currentNode)
               (visited, queue',
                steps @ [\<lparr>b_currentNode = currentNode, b_queue = queue', b_visited = visited\<rparr>])"
  obtain v' q' s' where r: "?st = (v', q', s')" by (cases ?st) 
  from bfs_for_measure[OF r] q
  show "((adjList, ?st), (adjList, visited, queue, steps))
        \<in> measure (\<lambda>(adjList, visited, queue, steps). card (unvisited visited) + length queue)"
    by (simp add: r)
qed

definition bfsStepsDetailed :: "GraphNode list \<Rightarrow> GraphEdge list \<Rightarrow> string option \<Rightarrow> BFSStep list" where
  "bfsStepsDetailed nodes edges startNodeId =
     (case startNode_of nodes startNodeId of
        None \<Rightarrow> []
      | Some startNode \<Rightarrow>
          if startNode \<noteq> []
          then bfsStepsDetailed_while (buildAdjacencyList edges)
                 (map_set startNode 1 (init_visited nodes), [startNode],
                  [\<lparr>b_currentNode = startNode, b_queue = [startNode],
                    b_visited = map_set startNode 1 (init_visited nodes)\<rparr>])
          else [])"


section \<open>Random DAG generator\<close>

text \<open>Decimal printing of an index, as a template literal does.\<close>

function string_of_nat :: "nat \<Rightarrow> string" where
  "string_of_nat n =
     (if n < 10 then [char_of (48 + n)]
      else string_of_nat (n div 10) @ [char_of (48 + n mod 10)])"
  by pat_completeness auto
termination
  by (relation "measure (\<lambda>n. n)") auto

declare string_of_nat.simps [simp del]

text \<open>
  The node list of \<open>generateRandomDAG\<close>: ids \<open>node-0\<close>, \<open>node-1\<close>, ... and one-letter labels
  (\<open>String.fromCharCode(65 + i)\<close>, a single byte for the up to 20 nodes the interface allows).
\<close>

definition random_nodes :: "nat \<Rightarrow> GraphNode list" where
  "random_nodes numNodes =
     map (\<lambda>i. \<lparr>node_id = ''node-'' @ string_of_nat i, node_label = [char_of (65 + i)]\<rparr>)
       [0..<numNodes]"

text \<open>
  The edge loop of \<open>generateRandomDAG\<close>. The ambient random source is a parameter: \<open>rnd attempt\<close>
  is the pair \<open>(sourceIndex, targetIndex)\<close> drawn at that attempt.
\<close>

function generateRandomDAG_loop ::
  "nat \<Rightarrow> nat \<Rightarrow> (nat \<Rightarrow> nat \<times> nat) \<Rightarrow> GraphNode list \<Rightarrow> nat \<Rightarrow> nat \<Rightarrow> GraphEdge list
   \<Rightarrow> GraphEdge list" where
  "generateRandomDAG_loop numEdges maxAttempts rnd nodes attempt edgeCount edges =
     (if attempt < maxAttempts \<and> edgeCount < numEdges then
        (case rnd attempt of (sourceIndex, targetIndex) \<Rightarrow>
           if sourceIndex < targetIndex then
             (let sourceId = ''node-'' @ string_of_nat sourceIndex;
                  targetId = ''node-'' @ string_of_nat targetIndex;
                  edgeExists = list_ex (\<lambda>e. source e = sourceId \<and> target e = targetId) edges
              in if \<not> edgeExists then
                   (let testEdges = edges @ [\<lparr>edge_id = ''e-'' @ string_of_nat edgeCount,
                                              source = sourceId, target = targetId\<rparr>]
                    in if \<not> hasCycle nodes testEdges then
                         generateRandomDAG_loop numEdges maxAttempts rnd nodes (attempt + 1)
                           (edgeCount + 1)
                           (edges @ [\<lparr>edge_id = ''edge-'' @ string_of_nat edgeCount,
                                      source = sourceId, target = targetId\<rparr>])
                       else generateRandomDAG_loop numEdges maxAttempts rnd nodes (attempt + 1)
                              edgeCount edges)
                 else generateRandomDAG_loop numEdges maxAttempts rnd nodes (attempt + 1)
                        edgeCount edges)
           else generateRandomDAG_loop numEdges maxAttempts rnd nodes (attempt + 1)
                  edgeCount edges)
      else edges)"
  by pat_completeness auto
termination
  by (relation "measure (\<lambda>(numEdges, maxAttempts, rnd, nodes, attempt, edgeCount, edges).
                  maxAttempts - attempt)") auto

declare generateRandomDAG_loop.simps [simp del]

definition generateRandomDAG ::
  "nat \<Rightarrow> nat \<Rightarrow> (nat \<Rightarrow> nat \<times> nat) \<Rightarrow> GraphNode list \<times> GraphEdge list" where
  "generateRandomDAG numNodes numEdges rnd =
     (random_nodes numNodes,
      generateRandomDAG_loop numEdges (numEdges * 10) rnd (random_nodes numNodes) 0 0 [])"

section \<open>The sample graph\<close>

definition sampleNodes :: "GraphNode list" where
  "sampleNodes =
     [\<lparr>node_id = ''A'', node_label = ''A''\<rparr>, \<lparr>node_id = ''B'', node_label = ''B''\<rparr>,
      \<lparr>node_id = ''C'', node_label = ''C''\<rparr>, \<lparr>node_id = ''D'', node_label = ''D''\<rparr>,
      \<lparr>node_id = ''E'', node_label = ''E''\<rparr>]"

definition sampleEdges :: "GraphEdge list" where
  "sampleEdges =
     [\<lparr>edge_id = ''e1'', source = ''A'', target = ''B''\<rparr>,
      \<lparr>edge_id = ''e2'', source = ''A'', target = ''C''\<rparr>,
      \<lparr>edge_id = ''e3'', source = ''B'', target = ''D''\<rparr>,
      \<lparr>edge_id = ''e4'', source = ''C'', target = ''D''\<rparr>,
      \<lparr>edge_id = ''e5'', source = ''D'', target = ''E''\<rparr>]"

definition createSampleDAG :: "GraphNode list \<times> GraphEdge list" where
  "createSampleDAG = (sampleNodes, sampleEdges)"

section \<open>Notions the properties are stated with\<close>

definition node_ids :: "GraphNode list \<Rightarrow> string set" where
  "node_ids nodes = node_id ` set nodes"

definition edgeRel :: "GraphEdge list \<Rightarrow> (string \<times> string) set" where
  "edgeRel edges = (\<lambda>e. (source e, target e)) ` set edges"

definition endpoints_in_nodes :: "GraphNode list \<Rightarrow> GraphEdge list \<Rightarrow> bool" where
  "endpoints_in_nodes nodes edges \<longleftrightarrow>
     source ` set edges \<subseteq> node_ids nodes \<and> target ` set edges \<subseteq> node_ids nodes"

definition has_directed_cycle :: "GraphEdge list \<Rightarrow> bool" where
  "has_directed_cycle edges \<longleftrightarrow> (\<exists>v. (v, v) \<in> (edgeRel edges)\<^sup>+)"

text \<open>
  The residual in-degree of a node once the nodes of \<open>removed\<close> are gone, and the ready list:
  the remaining node ids, in node-list order, whose residual in-degree is 0.
\<close>

definition spec_residual_in_degree :: "GraphEdge list \<Rightarrow> string list \<Rightarrow> string \<Rightarrow> nat" where
  "spec_residual_in_degree edges removed v =
     length (filter (\<lambda>e. target e = v \<and> source e \<notin> set removed) edges)"

definition spec_ready :: "GraphNode list \<Rightarrow> GraphEdge list \<Rightarrow> string list \<Rightarrow> string list" where
  "spec_ready nodes edges removed =
     filter (\<lambda>v. v \<notin> set removed \<and> spec_residual_in_degree edges removed v = 0)
       (new_Set (map node_id nodes))"

text \<open>
  The graph on the listed nodes: the edges whose two endpoints are node ids. An edge with an
  endpoint outside the node list (a dangling edge) is not part of it.
\<close>

definition graphRel :: "GraphNode list \<Rightarrow> GraphEdge list \<Rightarrow> (string \<times> string) set" where
  "graphRel nodes edges =
     {(u, w). (u, w) \<in> edgeRel edges \<and> u \<in> node_ids nodes \<and> w \<in> node_ids nodes}"

text \<open>The distance of a node from the start: the least number of edges of a path to it.\<close>

definition hop_distance :: "(string \<times> string) set \<Rightarrow> string \<Rightarrow> string \<Rightarrow> nat" where
  "hop_distance E s v = (LEAST n. (s, v) \<in> E ^^ n)"

text \<open>The ids a visited map marks 1, in map order, and the order in which ids first show up
  marked along a trace.\<close>

definition visited_ids :: "(string, int) jsmap \<Rightarrow> string list" where
  "visited_ids V = map fst (filter (\<lambda>kv. snd kv = 1) V)"

definition visitOrder :: "BFSStep list \<Rightarrow> string list" where
  "visitOrder steps =
     fold (\<lambda>r acc. acc @ filter (\<lambda>k. k \<notin> set acc) (visited_ids (b_visited r))) steps []"

text \<open>
  A visit record of a DFS trace: the current node is on the stack and marked visited. And the
  three records of a node \<open>v\<close> in a DFS trace \<open>T\<close> over the graph \<open>G\<close>: push and visit next to each
  other, then records of other nodes that keep \<open>v\<close> on the stack, then the pop; no other record
  of \<open>v\<close>; at the pop every successor of \<open>v\<close> is visited, and every successor unvisited at the
  visit record has been popped in between.
\<close>

definition is_visit_record :: "DFSStep \<Rightarrow> bool" where
  "is_visit_record r \<longleftrightarrow>
     d_currentNode r \<in> set (d_stack r) \<and> map_get (d_visited r) (d_currentNode r) = Some 1"

definition three_records :: "(string \<times> string) set \<Rightarrow> DFSStep list \<Rightarrow> string \<Rightarrow> bool" where
  "three_records G T v \<longleftrightarrow>
     (\<exists>pre mid post p V0 V1 V2.
        T = pre @ [\<lparr>d_currentNode = v, d_stack = p @ [v], d_visited = V0\<rparr>,
                   \<lparr>d_currentNode = v, d_stack = p @ [v], d_visited = V1\<rparr>] @ mid @
                  [\<lparr>d_currentNode = v, d_stack = p, d_visited = V2\<rparr>] @ post \<and>
        v \<notin> set p \<and> map_get V0 v = Some 0 \<and> map_get V1 v = Some 1 \<and>
        (\<forall>r \<in> set pre \<union> set mid \<union> set post. d_currentNode r \<noteq> v) \<and>
        (\<forall>r \<in> set mid. prefix (p @ [v]) (d_stack r)) \<and>
        (\<forall>w. (v, w) \<in> G \<longrightarrow> map_get V2 w = Some 1) \<and>
        (\<forall>w. (v, w) \<in> G \<and> map_get V1 w = Some 0 \<longrightarrow>
           (\<exists>r \<in> set mid. d_currentNode r = w \<and> w \<notin> set (d_stack r))))"

text \<open>
  Inputs used as examples: a graph with a dangling target, a sequence of random draws, a node
  list for a traversal started at an id it does not hold, a graph in which a listed node is
  joined to the first one only through an unlisted id, and a node list whose first id is empty.
\<close>

definition dangling_nodes :: "GraphNode list" where
  "dangling_nodes = [\<lparr>node_id = ''A'', node_label = ''A''\<rparr>]"

definition dangling_edges :: "GraphEdge list" where
  "dangling_edges =
     [\<lparr>edge_id = ''e1'', source = ''A'', target = ''X''\<rparr>,
      \<lparr>edge_id = ''e2'', source = ''X'', target = ''A''\<rparr>]"

definition rnd_example :: "nat \<Rightarrow> nat \<times> nat" where
  "rnd_example a = (if a = 0 then (0, 1) else if a = 1 then (1, 0) else (1, 2))"

definition unlisted_start_nodes :: "GraphNode list" where
  "unlisted_start_nodes = [\<lparr>node_id = ''A'', node_label = ''A''\<rparr>]"

definition dangling_path_nodes :: "GraphNode list" where
  "dangling_path_nodes =
     [\<lparr>node_id = ''A'', node_label = ''A''\<rparr>, \<lparr>node_id = ''B'', node_label = ''B''\<rparr>]"

definition dangling_path_edges :: "GraphEdge list" where
  "dangling_path_edges =
     [\<lparr>edge_id = ''e1'', source = ''A'', target = ''X''\<rparr>,
      \<lparr>edge_id = ''e2'', source = ''X'', target = ''B''\<rparr>]"

definition empty_id_nodes :: "GraphNode list" where
  "empty_id_nodes = [\<lparr>node_id = [], node_label = ''A''\<rparr>]"

section \<open>Properties\<close>

subsection \<open>Basic facts\<close>

lemma no_cycle_by_rank:
  fixes f :: "'a \<Rightarrow> nat"
  assumes "\<And>u v. (u, v) \<in> R \<Longrightarrow> f u < f v"
  shows "(v, v) \<notin> R\<^sup>+"
proof
  assume c: "(v, v) \<in> R\<^sup>+"
  have "(a, b) \<in> R\<^sup>+ \<Longrightarrow> f a < f b" for a b
    by (induction rule: trancl_induct) (auto dest: assms intro: less_trans)
  from this[OF c] show False by simp
qed

definition sample_rank :: "string \<Rightarrow> nat" where
  "sample_rank v = (if v = ''A'' then 0 else if v = ''B'' then 1 else if v = ''C'' then 1
                    else if v = ''D'' then 2 else 3)"

lemma sample_acyclic: "\<not> has_directed_cycle sampleEdges"
proof -
  have "(v, v) \<notin> (edgeRel sampleEdges)\<^sup>+" for v
    by (rule no_cycle_by_rank[where f = sample_rank])
       (auto simp: edgeRel_def sampleEdges_def sample_rank_def)
  then show ?thesis by (simp add: has_directed_cycle_def)
qed

lemma sample_endpoints: "endpoints_in_nodes sampleNodes sampleEdges"
  by (simp add: endpoints_in_nodes_def node_ids_def sampleNodes_def sampleEdges_def)

subsection \<open>The topological trace on the sample graph\<close>

lemma sample_reverse_adjacency:
  "buildReverseAdjacencyList sampleEdges =
     [(''B'', [''A'']), (''C'', [''A'']), (''D'', [''B'', ''C'']), (''E'', [''D''])]"
  by (simp add: buildReverseAdjacencyList_def sampleEdges_def map_has_def map_get_def
      get_or_empty_def)

lemma sample_in_degrees:
  "calculateInDegrees sampleNodes sampleEdges =
     [(''A'', 0), (''B'', 1), (''C'', 1), (''D'', 2), (''E'', 1)]"
  by (simp add: calculateInDegrees_def sampleNodes_def sampleEdges_def get_or_zero_def map_get_def)

lemma sample_topo_trace:
  "topologicalSortStepsDetailed sampleNodes sampleEdges =
     [\<lparr>t_removedNode = ''A'', t_queue = [],
       t_visited = [(''A'', 1), (''B'', 0), (''C'', 0), (''D'', 0), (''E'', 0)]\<rparr>]"
  unfolding topologicalSortStepsDetailed_def sample_reverse_adjacency sample_in_degrees
  by (simp add: init_visited_def new_Set_def set_add_def set_delete_def get_or_zero_def
      get_or_empty_def map_get_def sampleNodes_def)


text \<open>
  C1. The claim: on a graph whose edge endpoints are nodes, the topological trace has as many
  records as there are nodes exactly when the graph is acyclic. The loop walks the reverse
  adjacency list of the removed node, which lists its predecessors, so no successor ever
  loses an in-degree: on the acyclic sample graph of five nodes the trace has one record.
\<close>

theorem topo_trace_length_on_sample:
  "endpoints_in_nodes sampleNodes sampleEdges \<and> \<not> has_directed_cycle sampleEdges \<and>
   length sampleNodes = 5 \<and>
   length (topologicalSortStepsDetailed sampleNodes sampleEdges) = 1"
  using sample_endpoints sample_acyclic
  by (simp add: sample_topo_trace) (simp add: sampleNodes_def)

text \<open>
  C2. The claim: on the sample graph the first record removes A and has queue \<open>[B, C]\<close>, and the
  removed nodes form a linearization of all five nodes. The code removes A, leaves the queue of
  that record empty, and stops: A is the only node ever removed.
\<close>

theorem topo_first_record_on_sample:
  "createSampleDAG = (sampleNodes, sampleEdges) \<and>
   map t_removedNode (topologicalSortStepsDetailed sampleNodes sampleEdges) = [''A''] \<and>
   map t_queue (topologicalSortStepsDetailed sampleNodes sampleEdges) = [[]]"
  by (simp add: sample_topo_trace createSampleDAG_def)

text \<open>
  C7. The claim: the queue of the record of step \<open>i\<close> lists the remaining nodes whose residual
  in-degree is 0. On the sample graph, once A is removed the nodes B and C have residual
  in-degree 0, and the queue of that record is empty.
\<close>

theorem topo_queue_on_sample:
  "spec_ready sampleNodes sampleEdges [''A''] = [''B'', ''C''] \<and>
   t_queue (topologicalSortStepsDetailed sampleNodes sampleEdges ! 0) = []"
  by (simp add: sample_topo_trace)
     (simp add: spec_ready_def spec_residual_in_degree_def new_Set_def set_add_def
        sampleNodes_def sampleEdges_def)

subsection \<open>BFS: the queue holds visited nodes only\<close>

declare bfsStepsDetailed_while.simps [simp del]

definition bfs_record_ok :: "BFSStep \<Rightarrow> bool" where
  "bfs_record_ok r \<longleftrightarrow> (\<forall>q \<in> set (b_queue r). map_get (b_visited r) q = Some 1)"

definition bfs_queue_inv :: "bfs_state \<Rightarrow> bool" where
  "bfs_queue_inv st \<longleftrightarrow>
     (case st of (visited, queue, steps) \<Rightarrow>
        (\<forall>q \<in> set queue. map_get visited q = Some 1) \<and> (\<forall>r \<in> set steps. bfs_record_ok r))"

lemma bfs_for_queue_inv:
  "bfs_queue_inv (visited, queue, steps) \<Longrightarrow>
   bfs_queue_inv (bfsStepsDetailed_for currentNode ws (visited, queue, steps))"
proof (induction ws arbitrary: visited queue steps)
  case Nil
  then show ?case by simp
next
  case (Cons w ws)
  show ?case
  proof (cases "map_get visited w = Some 0")
    case True
    have "bfs_queue_inv (map_set w 1 visited, queue @ [w],
            steps @ [\<lparr>b_currentNode = currentNode, b_queue = queue @ [w],
                      b_visited = map_set w 1 visited\<rparr>])"
      using Cons.prems by (auto simp: bfs_queue_inv_def bfs_record_ok_def)
    from Cons.IH[OF this] True show ?thesis by simp
  next
    case False
    with Cons show ?thesis by simp
  qed
qed

lemma bfs_while_records_ok:
  "bfs_queue_inv st \<Longrightarrow> \<forall>r \<in> set (bfsStepsDetailed_while adjList st). bfs_record_ok r"
proof (induction adjList st rule: bfsStepsDetailed_while.induct)
  case (1 adjList visited queue steps)
  show ?case
  proof (cases queue)
    case Nil
    with "1.prems" show ?thesis
      by (simp add: bfsStepsDetailed_while.simps bfs_queue_inv_def)
  next
    case (Cons currentNode queue')
    have "bfs_queue_inv (visited, queue',
            steps @ [\<lparr>b_currentNode = currentNode, b_queue = queue', b_visited = visited\<rparr>])"
      using "1.prems" Cons by (auto simp: bfs_queue_inv_def bfs_record_ok_def)
    then have "bfs_queue_inv (bfsStepsDetailed_for currentNode (get_or_empty adjList currentNode)
            (visited, queue',
             steps @ [\<lparr>b_currentNode = currentNode, b_queue = queue', b_visited = visited\<rparr>]))"
      by (rule bfs_for_queue_inv)
    from "1.IH"[OF Cons this] Cons show ?thesis
      by (simp add: bfsStepsDetailed_while.simps)
  qed
qed

lemma bfs_for_extends:
  "\<exists>tr. snd (snd (bfsStepsDetailed_for currentNode ws (visited, queue, steps))) = steps @ tr"
proof (induction ws arbitrary: visited queue steps)
  case Nil
  show ?case by simp
next
  case (Cons w ws)
  show ?case
  proof (cases "map_get visited w = Some 0")
    case True
    from Cons.IH[of "map_set w 1 visited" "queue @ [w]"
        "steps @ [\<lparr>b_currentNode = currentNode, b_queue = queue @ [w],
                      b_visited = map_set w 1 visited\<rparr>]"] True
    show ?thesis by auto
  next
    case False
    with Cons.IH[of visited queue steps] show ?thesis by simp
  qed
qed

lemma bfs_while_extends:
  "\<exists>tr. bfsStepsDetailed_while adjList (visited, queue, steps) = steps @ tr"
proof (induction adjList "(visited, queue, steps)" arbitrary: visited queue steps
    rule: bfsStepsDetailed_while.induct)
  case (1 adjList visited queue steps)
  show ?case
  proof (cases queue)
    case Nil
    then show ?thesis by (simp add: bfsStepsDetailed_while.simps)
  next
    case (Cons currentNode queue')
    let ?steps1 = "steps @ [\<lparr>b_currentNode = currentNode, b_queue = queue', b_visited = visited\<rparr>]"
    obtain v' q' s' where r: "bfsStepsDetailed_for currentNode (get_or_empty adjList currentNode)
            (visited, queue', ?steps1) = (v', q', s')"
      by (cases "bfsStepsDetailed_for currentNode (get_or_empty adjList currentNode)
            (visited, queue', ?steps1)")
    from bfs_for_extends[of currentNode "get_or_empty adjList currentNode" visited queue' ?steps1] r
    obtain tr1 where t1: "s' = ?steps1 @ tr1" by auto
    from "1.hyps"[OF Cons r] obtain tr2 where
      "bfsStepsDetailed_while adjList (v', q', s') = s' @ tr2" by auto
    with Cons r t1 show ?thesis by (simp add: bfsStepsDetailed_while.simps)
  qed
qed

text \<open>
  C8. In every record of a BFS trace, every node id of the queue has visited entry 1 in the
  visited map of the same record; and whenever a start node exists, the first record has
  \<open>currentNode = start\<close> and \<open>queue = [start]\<close>, with the start node already marked visited.
\<close>

theorem bfs_queue_only_visited:
  "(\<forall>r \<in> set (bfsStepsDetailed nodes edges startNodeId).
      \<forall>q \<in> set (b_queue r). map_get (b_visited r) q = Some 1) \<and>
   (\<forall>s. startNode_of nodes startNodeId = Some s \<and> s \<noteq> [] \<longrightarrow>
      bfsStepsDetailed nodes edges startNodeId \<noteq> [] \<and>
      b_currentNode (hd (bfsStepsDetailed nodes edges startNodeId)) = s \<and>
      b_queue (hd (bfsStepsDetailed nodes edges startNodeId)) = [s] \<and>
      map_get (b_visited (hd (bfsStepsDetailed nodes edges startNodeId))) s = Some 1)"
proof (intro conjI allI impI)
  show "\<forall>r \<in> set (bfsStepsDetailed nodes edges startNodeId).
      \<forall>q \<in> set (b_queue r). map_get (b_visited r) q = Some 1"
  proof (cases "startNode_of nodes startNodeId")
    case None
    then show ?thesis by (simp add: bfsStepsDetailed_def)
  next
    case (Some s)
    show ?thesis
    proof (cases "s = []")
      case True
      with Some show ?thesis by (simp add: bfsStepsDetailed_def)
    next
      case False
      let ?v = "map_set s 1 (init_visited nodes)"
      have "bfs_queue_inv (?v, [s], [\<lparr>b_currentNode = s, b_queue = [s], b_visited = ?v\<rparr>])"
        by (simp add: bfs_queue_inv_def bfs_record_ok_def)
      from bfs_while_records_ok[OF this, of "buildAdjacencyList edges"] Some False
      show ?thesis by (simp add: bfsStepsDetailed_def bfs_record_ok_def)
    qed
  qed
next
  fix s
  assume a: "startNode_of nodes startNodeId = Some s \<and> s \<noteq> []"
  let ?v = "map_set s 1 (init_visited nodes)"
  let ?r = "\<lparr>b_currentNode = s, b_queue = [s], b_visited = ?v\<rparr>"
  from bfs_while_extends[of "buildAdjacencyList edges" ?v "[s]" "[?r]"] a
  obtain tr where t: "bfsStepsDetailed nodes edges startNodeId = ?r # tr"
    by (auto simp: bfsStepsDetailed_def)
  show "bfsStepsDetailed nodes edges startNodeId \<noteq> []" using t by simp
  show "b_currentNode (hd (bfsStepsDetailed nodes edges startNodeId)) = s" using t by simp
  show "b_queue (hd (bfsStepsDetailed nodes edges startNodeId)) = [s]" using t by simp
  show "map_get (b_visited (hd (bfsStepsDetailed nodes edges startNodeId))) s = Some 1"
    using t by simp
qed


theorem bfs_queue_only_visited_witness:
  "startNode_of sampleNodes None = Some ''A'' \<and>
   b_currentNode (hd (bfsStepsDetailed sampleNodes sampleEdges None)) = ''A'' \<and>
   b_queue (hd (bfsStepsDetailed sampleNodes sampleEdges None)) = [''A''] \<and>
   list_all (\<lambda>r. list_all (\<lambda>q. map_get (b_visited r) q = Some 1) (b_queue r))
     (bfsStepsDetailed sampleNodes sampleEdges None)"
proof -
  have s: "startNode_of sampleNodes None = Some ''A''"
    by (simp add: startNode_of_def js_truthy_def sampleNodes_def)
  from bfs_queue_only_visited[of sampleNodes sampleEdges None] s
  show ?thesis by (simp add: list_all_iff)
qed

subsection \<open>The cycle detector decides acyclicity\<close>

lemma get_or_empty_map_set:
  "get_or_empty (map_set k v m) k' = (if k' = k then v else get_or_empty m k')"
  by (simp add: get_or_empty_def)

lemma buildAdjacencyList_step:
  "get_or_empty
     (let adjList' = (if \<not> map_has adjList (source edge)
                      then map_set (source edge) [] adjList else adjList)
      in map_set (source edge) (get_or_empty adjList' (source edge) @ [target edge]) adjList') u
   = (if u = source edge then get_or_empty adjList u @ [target edge] else get_or_empty adjList u)"
  by (auto simp: Let_def get_or_empty_map_set) (auto simp: map_has_def get_or_empty_def)

lemma buildAdjacencyList_fold:
  "get_or_empty
     (fold (\<lambda>edge adjList.
             let adjList' = (if \<not> map_has adjList (source edge)
                             then map_set (source edge) [] adjList else adjList)
             in map_set (source edge) (get_or_empty adjList' (source edge) @ [target edge]) adjList')
        edges adjList0) u
   = get_or_empty adjList0 u @ map target (filter (\<lambda>e. source e = u) edges)"
proof (induction edges arbitrary: adjList0)
  case Nil
  show ?case by simp
next
  case (Cons e edges)
  show ?case
    unfolding fold_simps Cons.IH buildAdjacencyList_step by simp
qed

lemma buildAdjacencyList_get:
  "get_or_empty (buildAdjacencyList edges) u = map target (filter (\<lambda>e. source e = u) edges)"
  unfolding buildAdjacencyList_def buildAdjacencyList_fold
  by (simp add: get_or_empty_def map_get_def)

lemma buildAdjacencyList_successors:
  "set (get_or_empty (buildAdjacencyList edges) u) = edgeRel edges `` {u}"
  by (auto simp: buildAdjacencyList_get edgeRel_def image_iff)


definition cycle_inv :: "(string \<times> string) set \<Rightarrow> cycle_state \<Rightarrow> bool" where
  "cycle_inv E st \<longleftrightarrow>
     set (snd st) \<subseteq> set (fst st) \<and>
     E `` (set (fst st) - set (snd st)) \<subseteq> set (fst st) - set (snd st) \<and>
     (\<forall>b \<in> set (fst st) - set (snd st). (b, b) \<notin> E\<^sup>+)"

definition on_path :: "(string \<times> string) set \<Rightarrow> cycle_state \<Rightarrow> string \<Rightarrow> bool" where
  "on_path E st n \<longleftrightarrow> (\<forall>g \<in> set (snd st). (g, n) \<in> E\<^sup>*)"

definition dfs_post ::
  "(string \<times> string) set \<Rightarrow> string \<Rightarrow> cycle_state \<Rightarrow> bool \<times> cycle_state \<Rightarrow> bool" where
  "dfs_post E n st res \<longleftrightarrow>
     (if fst res then (\<exists>v. (v, v) \<in> E\<^sup>+)
      else set (snd (snd res)) = set (snd st) \<and> set (fst st) \<subseteq> set (fst (snd res)) \<and>
           n \<in> set (fst (snd res)) \<and> cycle_inv E (snd res))"

definition for_post ::
  "(string \<times> string) set \<Rightarrow> string list \<Rightarrow> cycle_state \<Rightarrow> bool \<times> cycle_state \<Rightarrow> bool" where
  "for_post E ws st res \<longleftrightarrow>
     (if fst res then (\<exists>v. (v, v) \<in> E\<^sup>+)
      else set (snd (snd res)) = set (snd st) \<and> set (fst st) \<subseteq> set (fst (snd res)) \<and>
           cycle_inv E (snd res) \<and> set ws \<subseteq> set (fst (snd res)) - set (snd (snd res)))"

lemma closed_rtrancl_image:
  assumes "E `` B \<subseteq> B" and "(a, b) \<in> E\<^sup>*" and "a \<in> B"
  shows "b \<in> B"
  using assms(2,3,1) by (induction rule: rtrancl_induct) auto

lemma finish_node_inv:
  assumes inv: "cycle_inv E (V, S)" and n: "n \<in> set S"
    and succ: "E `` {n} \<subseteq> set V - set S"
  shows "cycle_inv E (V, set_delete n S)"
proof -
  let ?B = "set V - set S"
  have closed: "E `` ?B \<subseteq> ?B" using inv by (simp add: cycle_inv_def)
  have nn: "(n, n) \<notin> E\<^sup>+"
  proof
    assume "(n, n) \<in> E\<^sup>+"
    then obtain w where w: "(n, w) \<in> E" and wn: "(w, n) \<in> E\<^sup>*"
      by (auto dest: tranclD)
    from w succ have "w \<in> ?B" by auto
    from closed_rtrancl_image[OF closed wn this] n show False by simp
  qed
  have "set V - (set S - {n}) = insert n ?B" using inv n by (auto simp: cycle_inv_def)
  moreover have "E `` insert n ?B \<subseteq> insert n ?B" using closed succ by auto
  moreover have "\<forall>b \<in> insert n ?B. (b, b) \<notin> E\<^sup>+" using nn inv by (simp add: cycle_inv_def)
  moreover have "set S - {n} \<subseteq> set V" using inv by (auto simp: cycle_inv_def)
  ultimately show ?thesis by (simp add: cycle_inv_def)
qed

lemma hasCycle_dfs_for_correct:
  "(\<And>u. set (get_or_empty adjList u) = E `` {u}) \<Longrightarrow> cycle_inv E st \<Longrightarrow>
     nodeId \<notin> set (fst st) \<Longrightarrow> on_path E st nodeId \<Longrightarrow>
     dfs_post E nodeId st (hasCycle_dfs adjList nodeId st)"
  "(\<And>u. set (get_or_empty adjList u) = E `` {u}) \<Longrightarrow> cycle_inv E st \<Longrightarrow>
     \<exists>n. n \<in> set (snd st) \<and> on_path E st n \<and> set ws \<subseteq> E `` {n} \<Longrightarrow>
     for_post E ws st (hasCycle_for adjList ws st)"
proof (induction adjList nodeId st and adjList ws st rule: hasCycle_dfs_hasCycle_for.induct)
  case (1 adjList nodeId visited recursionStack)
  let ?st1 = "(set_add nodeId visited, set_add nodeId recursionStack)"
  let ?res = "hasCycle_for adjList (get_or_empty adjList nodeId) ?st1"
  have nv: "nodeId \<notin> set visited" using "1.prems"(3) by simp
  have sub: "set recursionStack \<subseteq> set visited" using "1.prems"(2) by (simp add: cycle_inv_def)
  have ns: "nodeId \<notin> set recursionStack" using nv sub by auto
  have black: "set (fst ?st1) - set (snd ?st1) = set visited - set recursionStack"
    using nv by auto
  have inv1: "cycle_inv E ?st1"
    using "1.prems"(2) unfolding cycle_inv_def black by auto
  have path1: "on_path E ?st1 nodeId"
    using "1.prems"(4) by (simp add: on_path_def)
  have "\<exists>n. n \<in> set (snd ?st1) \<and> on_path E ?st1 n \<and> set (get_or_empty adjList nodeId) \<subseteq> E `` {n}"
    using path1 "1.prems"(1) by (intro exI[of _ nodeId]) simp
  from "1.IH"[OF "1.prems"(1) inv1 this]
  have post: "for_post E (get_or_empty adjList nodeId) ?st1 ?res" .
  show ?case
  proof (cases "fst ?res")
    case True
    with post show ?thesis
      by (auto simp: dfs_post_def for_post_def split: prod.splits bool.splits)
  next
    case False
    obtain V' S' where r: "?res = (False, (V', S'))" using False
      by (cases ?res) auto
    from post r have S': "set S' = insert nodeId (set recursionStack)"
      and V': "insert nodeId (set visited) \<subseteq> set V'"
      and inv': "cycle_inv E (V', S')"
      and succ: "E `` {nodeId} \<subseteq> set V' - set S'"
      using "1.prems"(1) by (auto simp: for_post_def)
    have "cycle_inv E (V', set_delete nodeId S')"
      using inv' succ S' by (intro finish_node_inv) auto
    moreover have "set (set_delete nodeId S') = set recursionStack" using S' ns by auto
    ultimately show ?thesis using r V' by (simp add: dfs_post_def)
  qed
next
  case (2 adjList st)
  then show ?case by (simp add: for_post_def)
next
  case (3 adjList neighbor rest visited recursionStack)
  from "3.prems"(3) obtain n where n: "n \<in> set recursionStack"
    and path: "on_path E (visited, recursionStack) n"
    and ws: "neighbor \<in> E `` {n}" "set rest \<subseteq> E `` {n}"
    by auto
  show ?case
  proof (cases "set_has visited neighbor")
    case False
    let ?res = "hasCycle_dfs adjList neighbor (visited, recursionStack)"
    have nv: "neighbor \<notin> set (fst (visited, recursionStack))" using False by (simp add: set_has_def)
    have "on_path E (visited, recursionStack) neighbor"
      unfolding on_path_def
    proof
      fix g assume "g \<in> set (snd (visited, recursionStack))"
      with path have "(g, n) \<in> E\<^sup>*" by (simp add: on_path_def)
      with ws(1) show "(g, neighbor) \<in> E\<^sup>*" by auto
    qed
    from "3.IH"(1)[OF False "3.prems"(1,2) nv this]
    have post1: "dfs_post E neighbor (visited, recursionStack) ?res" .
    show ?thesis
    proof (cases "fst ?res")
      case True
      with post1 False show ?thesis
        by (auto simp: dfs_post_def for_post_def split: prod.splits)
    next
      case bF: False
      obtain V1 S1 where r: "?res = (False, (V1, S1))" using bF by (cases ?res) auto
      from post1 r have S1: "set S1 = set recursionStack" and V1: "set visited \<subseteq> set V1"
        and w1: "neighbor \<in> set V1" and inv1: "cycle_inv E (V1, S1)"
        by (auto simp: dfs_post_def)
      have sub: "set recursionStack \<subseteq> set visited" using "3.prems"(2) by (simp add: cycle_inv_def)
      have wS: "neighbor \<notin> set recursionStack" using nv sub by auto
      have "on_path E (V1, S1) n" using path S1 by (simp add: on_path_def)
      then have ex: "\<exists>n. n \<in> set (snd (V1, S1)) \<and> on_path E (V1, S1) n \<and> set rest \<subseteq> E `` {n}"
        using n S1 ws(2) by (intro exI[of _ n]) simp
      from "3.IH"(2)[OF False r[symmetric] _ "3.prems"(1) inv1 ex]
      have post2: "for_post E rest (V1, S1) (hasCycle_for adjList rest (V1, S1))" by simp
      have eq: "hasCycle_for adjList (neighbor # rest) (visited, recursionStack)
                = hasCycle_for adjList rest (V1, S1)"
        using False r by simp
      show ?thesis
        unfolding eq using post2 S1 V1 w1 wS
        by (auto simp: for_post_def) blast+
    qed
  next
    case True
    show ?thesis
    proof (cases "set_has recursionStack neighbor")
      case onstack: True
      then have "(neighbor, n) \<in> E\<^sup>*" using path by (simp add: on_path_def set_has_def)
      with ws(1) have "(neighbor, neighbor) \<in> E\<^sup>+" by (auto intro: rtrancl_into_trancl1)
      then show ?thesis using True onstack by (auto simp: for_post_def)
    next
      case False
      have ex: "\<exists>n. n \<in> set (snd (visited, recursionStack)) \<and>
                  on_path E (visited, recursionStack) n \<and> set rest \<subseteq> E `` {n}"
        using n path ws(2) by (intro exI[of _ n]) simp
      from "3.IH"(3)[OF _ False "3.prems"(1,2) ex] True
      have post: "for_post E rest (visited, recursionStack)
                    (hasCycle_for adjList rest (visited, recursionStack))" by simp
      have eq: "hasCycle_for adjList (neighbor # rest) (visited, recursionStack)
                = hasCycle_for adjList rest (visited, recursionStack)"
        using True False by simp
      show ?thesis unfolding eq using post True False
        by (auto simp: for_post_def set_has_def) blast+
    qed
  qed
qed


lemma hasCycle_nodes_correct:
  assumes adj: "\<And>u. set (get_or_empty adjList u) = E `` {u}"
  shows "set S = {} \<Longrightarrow> cycle_inv E (V, S) \<Longrightarrow>
    (if hasCycle_nodes adjList ns (V, S) then (\<exists>v. (v, v) \<in> E\<^sup>+)
     else (\<forall>b \<in> set V \<union> node_ids ns. (b, b) \<notin> E\<^sup>+))"
proof (induction ns arbitrary: V S)
  case Nil
  then show ?case by (simp add: cycle_inv_def node_ids_def)
next
  case (Cons node rest)
  show ?case
  proof (cases "set_has V (node_id node)")
    case True
    from Cons.IH[OF Cons.prems] True show ?thesis
      by (auto simp: node_ids_def set_has_def)
  next
    case False
    let ?res = "hasCycle_dfs adjList (node_id node) (V, S)"
    have "on_path E (V, S) (node_id node)" using Cons.prems(1) by (simp add: on_path_def)
    with hasCycle_dfs_for_correct(1)[of adjList E "(V, S)" "node_id node"] adj Cons.prems(2) False
    have post: "dfs_post E (node_id node) (V, S) ?res" by (simp add: set_has_def)
    show ?thesis
    proof (cases "fst ?res")
      case True
      with post False show ?thesis by (auto simp: dfs_post_def split: prod.splits)
    next
      case bF: False
      obtain V1 S1 where r: "?res = (False, (V1, S1))" using bF by (cases ?res) auto
      from post r Cons.prems(1) have S1: "set S1 = {}" and V1: "set V \<subseteq> set V1"
        and n1: "node_id node \<in> set V1" and inv1: "cycle_inv E (V1, S1)"
        by (auto simp: dfs_post_def)
      have eq: "hasCycle_nodes adjList (node # rest) (V, S) = hasCycle_nodes adjList rest (V1, S1)"
        using False r by simp
      from Cons.IH[OF S1 inv1] V1 n1 show ?thesis
        unfolding eq by (auto simp: node_ids_def)
    qed
  qed
qed

lemma cycle_vertex_is_source:
  assumes "(v, v) \<in> (edgeRel edges)\<^sup>+"
  shows "v \<in> source ` set edges"
proof -
  from assms obtain w where "(v, w) \<in> edgeRel edges" by (auto dest: tranclD)
  then show ?thesis by (auto simp: edgeRel_def)
qed

text \<open>
  C3. On a graph whose edge endpoints are node ids, \<open>hasCycle\<close> returns true exactly when the
  edge relation has a directed cycle (some node reaches itself along one or more edges). So
  it returns false on every acyclic graph, a diamond included, and true on every graph with a
  cycle, a self-loop included.
\<close>

theorem hasCycle_iff_directed_cycle:
  assumes "endpoints_in_nodes nodes edges"
  shows "hasCycle nodes edges \<longleftrightarrow> has_directed_cycle edges"
proof -
  let ?E = "edgeRel edges"
  have inv0: "cycle_inv ?E ([], [])" by (simp add: cycle_inv_def)
  from hasCycle_nodes_correct[of "buildAdjacencyList edges" ?E "[]" "[]" nodes,
      OF buildAdjacencyList_successors _ inv0]
  have r: "if hasCycle nodes edges then (\<exists>v. (v, v) \<in> ?E\<^sup>+)
           else (\<forall>b \<in> node_ids nodes. (b, b) \<notin> ?E\<^sup>+)"
    by (simp add: hasCycle_def)
  show ?thesis
  proof (cases "hasCycle nodes edges")
    case True
    with r show ?thesis by (simp add: has_directed_cycle_def)
  next
    case False
    with r have none: "\<forall>b \<in> node_ids nodes. (b, b) \<notin> ?E\<^sup>+" by simp
    have "\<not> has_directed_cycle edges"
    proof
      assume "has_directed_cycle edges"
      then obtain v where v: "(v, v) \<in> ?E\<^sup>+" by (auto simp: has_directed_cycle_def)
      from cycle_vertex_is_source[OF v] assms have "v \<in> node_ids nodes"
        by (auto simp: endpoints_in_nodes_def)
      with none v show False by blast
    qed
    with False show ?thesis by simp
  qed
qed


theorem hasCycle_iff_directed_cycle_witness:
  "endpoints_in_nodes sampleNodes sampleEdges \<and> \<not> hasCycle sampleNodes sampleEdges \<and>
   endpoints_in_nodes [\<lparr>node_id = ''A'', node_label = ''A''\<rparr>]
     [\<lparr>edge_id = ''e1'', source = ''A'', target = ''A''\<rparr>] \<and>
   hasCycle [\<lparr>node_id = ''A'', node_label = ''A''\<rparr>]
     [\<lparr>edge_id = ''e1'', source = ''A'', target = ''A''\<rparr>]"
proof -
  let ?ns = "[\<lparr>node_id = ''A'', node_label = ''A''\<rparr>]"
  let ?es = "[\<lparr>edge_id = ''e1'', source = ''A'', target = ''A''\<rparr>]"
  have e: "endpoints_in_nodes ?ns ?es"
    by (simp add: endpoints_in_nodes_def node_ids_def)
  have "(''A'', ''A'') \<in> (edgeRel ?es)\<^sup>+"
    by (rule r_into_trancl) (simp add: edgeRel_def)
  then have c: "has_directed_cycle ?es"
    unfolding has_directed_cycle_def by blast
  have a: "\<not> hasCycle sampleNodes sampleEdges"
    using hasCycle_iff_directed_cycle[OF sample_endpoints] sample_acyclic by (rule ssubst)
  have b: "hasCycle ?ns ?es"
    using hasCycle_iff_directed_cycle[OF e] c by (rule ssubst)
  show ?thesis
    by (intro conjI sample_endpoints a e b)
qed

subsection \<open>The random DAG generator\<close>

lemma buildAdjacencyList_last_edge:
  assumes "source e = source e'" and "target e = target e'"
  shows "buildAdjacencyList (edges @ [e]) = buildAdjacencyList (edges @ [e'])"
  using assms by (simp add: buildAdjacencyList_def)

lemma hasCycle_last_edge_id:
  assumes "source e = source e'" and "target e = target e'"
  shows "hasCycle nodes (edges @ [e]) = hasCycle nodes (edges @ [e'])"
  unfolding hasCycle_def buildAdjacencyList_last_edge[OF assms] ..

lemma hasCycle_no_edges: "\<not> hasCycle nodes []"
proof
  assume h: "hasCycle nodes []"
  have inv0: "cycle_inv (edgeRel []) ([], [])" by (simp add: cycle_inv_def)
  from hasCycle_nodes_correct[of "buildAdjacencyList []" "edgeRel []" "[]" "[]" nodes,
      OF buildAdjacencyList_successors _ inv0] h
  have "\<exists>v. (v, v) \<in> (edgeRel [])\<^sup>+" by (simp add: hasCycle_def)
  then show False by (simp add: edgeRel_def)
qed

definition edge_pair :: "GraphEdge \<Rightarrow> string \<times> string" where
  "edge_pair e = (source e, target e)"

definition forward_edge :: "GraphEdge \<Rightarrow> bool" where
  "forward_edge e \<longleftrightarrow>
     (\<exists>i j. i < j \<and> source e = ''node-'' @ string_of_nat i \<and>
            target e = ''node-'' @ string_of_nat j)"

definition random_edges_ok :: "GraphNode list \<Rightarrow> nat \<Rightarrow> GraphEdge list \<Rightarrow> bool" where
  "random_edges_ok nodes numEdges edges \<longleftrightarrow>
     \<not> hasCycle nodes edges \<and> distinct (map edge_pair edges) \<and>
     (\<forall>e \<in> set edges. forward_edge e) \<and> length edges \<le> numEdges"

lemma random_edges_ok_accept:
  assumes ok: "random_edges_ok nodes numEdges edges" and len: "length edges < numEdges"
    and fw: "forward_edge e"
    and ex: "\<not> list_ex (\<lambda>x. source x = source e \<and> target x = target e) edges"
    and nc: "\<not> hasCycle nodes (edges @ [e'])"
    and same: "source e' = source e" "target e' = target e"
  shows "random_edges_ok nodes numEdges (edges @ [e])"
proof -
  have "hasCycle nodes (edges @ [e]) = hasCycle nodes (edges @ [e'])"
    using same by (intro hasCycle_last_edge_id) simp_all
  with nc have 1: "\<not> hasCycle nodes (edges @ [e])" by blast
  have "edge_pair e \<notin> edge_pair ` set edges"
    using ex by (auto simp: list_ex_iff edge_pair_def)
  with ok have 2: "distinct (map edge_pair (edges @ [e]))"
    by (simp add: random_edges_ok_def)
  from ok fw have 3: "\<forall>x \<in> set (edges @ [e]). forward_edge x"
    by (simp add: random_edges_ok_def)
  from len have 4: "length (edges @ [e]) \<le> numEdges" by simp
  from 1 2 3 4 show ?thesis unfolding random_edges_ok_def by blast
qed


definition node_name :: "nat \<Rightarrow> string" where
  "node_name i = ''node-'' @ string_of_nat i"

lemma generateRandomDAG_loop_step:
  assumes "attempt < maxAttempts" and "edgeCount < numEdges"
    and "rnd attempt = (sourceIndex, targetIndex)"
  shows "generateRandomDAG_loop numEdges maxAttempts rnd nodes attempt edgeCount edges =
     (if sourceIndex < targetIndex \<and>
         \<not> list_ex (\<lambda>e. source e = node_name sourceIndex \<and> target e = node_name targetIndex) edges \<and>
         \<not> hasCycle nodes (edges @ [\<lparr>edge_id = ''e-'' @ string_of_nat edgeCount,
                 source = node_name sourceIndex, target = node_name targetIndex\<rparr>])
      then generateRandomDAG_loop numEdges maxAttempts rnd nodes (attempt + 1) (edgeCount + 1)
             (edges @ [\<lparr>edge_id = ''edge-'' @ string_of_nat edgeCount,
                 source = node_name sourceIndex, target = node_name targetIndex\<rparr>])
      else generateRandomDAG_loop numEdges maxAttempts rnd nodes (attempt + 1) edgeCount edges)"
  unfolding node_name_def
  by (subst generateRandomDAG_loop.simps) (simp add: assms Let_def)


lemma generateRandomDAG_loop_stop:
  assumes "\<not> (attempt < maxAttempts \<and> edgeCount < numEdges)"
  shows "generateRandomDAG_loop numEdges maxAttempts rnd nodes attempt edgeCount edges = edges"
  by (subst generateRandomDAG_loop.simps) (rule if_not_P[OF assms])

lemma forward_edge_node_names:
  "i < j \<Longrightarrow> forward_edge \<lparr>edge_id = x, source = node_name i, target = node_name j\<rparr>"
  unfolding forward_edge_def node_name_def by auto

lemma generateRandomDAG_loop_ok:
  "random_edges_ok nodes numEdges edges \<Longrightarrow> edgeCount = length edges \<Longrightarrow>
   random_edges_ok nodes numEdges
     (generateRandomDAG_loop numEdges maxAttempts rnd nodes attempt edgeCount edges)"
proof (induction "maxAttempts - attempt" arbitrary: attempt edgeCount edges)
  case 0
  then have "\<not> (attempt < maxAttempts \<and> edgeCount < numEdges)" by simp
  from generateRandomDAG_loop_stop[OF this] "0.prems"(1) show ?case by simp
next
  case (Suc k)
  show ?case
  proof (cases "attempt < maxAttempts \<and> edgeCount < numEdges")
    case False
    from generateRandomDAG_loop_stop[OF False] Suc.prems(1) show ?thesis by simp
  next
    case guard: True
    obtain sourceIndex targetIndex where r: "rnd attempt = (sourceIndex, targetIndex)"
      by (cases "rnd attempt")
    define test where "test = \<lparr>edge_id = ''e-'' @ string_of_nat edgeCount,
                 source = node_name sourceIndex, target = node_name targetIndex\<rparr>"
    define new where "new = \<lparr>edge_id = ''edge-'' @ string_of_nat edgeCount,
                 source = node_name sourceIndex, target = node_name targetIndex\<rparr>"
    have k: "k = maxAttempts - (attempt + 1)" using Suc.hyps(2) by simp
    note step = generateRandomDAG_loop_step[of attempt maxAttempts edgeCount numEdges rnd
        sourceIndex targetIndex nodes edges, folded test_def new_def]
    show ?thesis
    proof (cases "sourceIndex < targetIndex \<and>
         \<not> list_ex (\<lambda>e. source e = node_name sourceIndex \<and> target e = node_name targetIndex) edges \<and>
         \<not> hasCycle nodes (edges @ [test])")
      case True
      have fw: "forward_edge new"
        unfolding new_def using True by (intro forward_edge_node_names) simp
      have ex: "\<not> list_ex (\<lambda>x. source x = source new \<and> target x = target new) edges"
        using True by (simp add: new_def)
      have same: "source test = source new" "target test = target new"
        by (simp_all add: test_def new_def)
      have ok: "random_edges_ok nodes numEdges (edges @ [new])"
        using Suc.prems(1) _ fw ex _ same
      proof (rule random_edges_ok_accept)
        show "length edges < numEdges" using guard Suc.prems(2) by simp
        show "\<not> hasCycle nodes (edges @ [test])" using True by simp
      qed
      have "edgeCount + 1 = length (edges @ [new])" using Suc.prems(2) by simp
      from Suc.hyps(1)[OF k ok this]
      have "random_edges_ok nodes numEdges
              (generateRandomDAG_loop numEdges maxAttempts rnd nodes (attempt + 1)
                 (edgeCount + 1) (edges @ [new]))" .
      moreover have "generateRandomDAG_loop numEdges maxAttempts rnd nodes attempt edgeCount edges
          = generateRandomDAG_loop numEdges maxAttempts rnd nodes (attempt + 1)
                 (edgeCount + 1) (edges @ [new])"
        using step guard r True by simp
      ultimately show ?thesis by simp
    next
      case False
      from Suc.hyps(1)[OF k Suc.prems]
      have "random_edges_ok nodes numEdges
              (generateRandomDAG_loop numEdges maxAttempts rnd nodes (attempt + 1)
                 edgeCount edges)" .
      moreover have "generateRandomDAG_loop numEdges maxAttempts rnd nodes attempt edgeCount edges
          = generateRandomDAG_loop numEdges maxAttempts rnd nodes (attempt + 1) edgeCount edges"
        using step guard r False by simp
      ultimately show ?thesis by simp
    qed
  qed
qed


lemma string_of_nat_nonempty: "string_of_nat n \<noteq> []"
  by (subst string_of_nat.simps) simp

lemma digit_char_inj:
  assumes "char_of (48 + a) = (char_of (48 + b) :: char)" and "a < 10" and "b < 10"
  shows "a = (b::nat)"
proof -
  from assms(1) have "(of_char (char_of (48 + a) :: char) :: nat) = of_char (char_of (48 + b) :: char)"
    by simp
  then have "(48 + a) mod 256 = (48 + b) mod 256" by simp
  with assms(2,3) show ?thesis by simp
qed

lemma string_of_nat_inj: "string_of_nat a = string_of_nat b \<Longrightarrow> a = b"
proof (induction a arbitrary: b rule: string_of_nat.induct)
  case (1 a)
  show ?case
  proof (cases "a < 10")
    case a: True
    show ?thesis
    proof (cases "b < 10")
      case True
      with a "1.prems" have "char_of (48 + a) = (char_of (48 + b) :: char)"
        by (simp add: string_of_nat.simps[of a] string_of_nat.simps[of b])
      from digit_char_inj[OF this a True] show ?thesis .
    next
      case False
      with a "1.prems" have "string_of_nat (b div 10) = []"
        by (simp add: string_of_nat.simps[of a] string_of_nat.simps[of b])
      with string_of_nat_nonempty show ?thesis by blast
    qed
  next
    case a: False
    show ?thesis
    proof (cases "b < 10")
      case True
      with a "1.prems" have "string_of_nat (a div 10) = []"
        by (simp add: string_of_nat.simps[of a] string_of_nat.simps[of b])
      with string_of_nat_nonempty show ?thesis by blast
    next
      case False
      with a "1.prems" have e: "string_of_nat (a div 10) = string_of_nat (b div 10)"
        and d: "char_of (48 + a mod 10) = (char_of (48 + b mod 10) :: char)"
        by (simp_all add: string_of_nat.simps[of a] string_of_nat.simps[of b])
      from "1.IH"[OF a e] have "a div 10 = b div 10" .
      moreover from digit_char_inj[OF d] have "a mod 10 = b mod 10" by simp
      ultimately show ?thesis by (metis div_mult_mod_eq)
    qed
  qed
qed

lemma node_name_inj: "node_name i = node_name j \<Longrightarrow> i = j"
  by (simp add: node_name_def string_of_nat_inj)

lemma rnd_example_run:
  "snd (generateRandomDAG 3 2 rnd_example) =
     [\<lparr>edge_id = ''edge-0'', source = ''node-0'', target = ''node-1''\<rparr>,
      \<lparr>edge_id = ''edge-1'', source = ''node-1'', target = ''node-2''\<rparr>]"
  by code_simp

text \<open>
  C6. Whatever the random draws, and for every node count and target edge count (so in
  particular for 3 to 20 nodes and 1 to 30 edges), the result of \<open>generateRandomDAG\<close> is not
  flagged by \<open>hasCycle\<close>, repeats no (source, target) pair, has only edges from a node of
  smaller index to a node of larger index (the index of a node id is unique, by
  \<open>node_name_inj\<close>), and has at most the requested number of edges.
\<close>

theorem generateRandomDAG_result:
  "(case generateRandomDAG numNodes numEdges rnd of
      (nodes, edges) \<Rightarrow>
        \<not> hasCycle nodes edges \<and>
        distinct (map (\<lambda>e. (source e, target e)) edges) \<and>
        (\<forall>e \<in> set edges. \<exists>i j. i < j \<and> source e = ''node-'' @ string_of_nat i \<and>
                                  target e = ''node-'' @ string_of_nat j) \<and>
        length edges \<le> numEdges)"
proof -
  have "random_edges_ok (random_nodes numNodes) numEdges []"
    by (simp add: random_edges_ok_def hasCycle_no_edges)
  then have "random_edges_ok (random_nodes numNodes) numEdges
               (generateRandomDAG_loop numEdges (numEdges * 10) rnd (random_nodes numNodes) 0 0 [])"
    by (rule generateRandomDAG_loop_ok) simp
  then show ?thesis
    unfolding generateRandomDAG_def random_edges_ok_def forward_edge_def edge_pair_def
    by simp
qed

theorem generateRandomDAG_result_witness:
  "\<not> hasCycle (fst (generateRandomDAG 3 2 rnd_example)) (snd (generateRandomDAG 3 2 rnd_example)) \<and>
   distinct (map (\<lambda>e. (source e, target e)) (snd (generateRandomDAG 3 2 rnd_example))) \<and>
   length (snd (generateRandomDAG 3 2 rnd_example)) = 2"
proof -
  from generateRandomDAG_result[where numNodes = 3 and numEdges = 2 and rnd = rnd_example]
  have "\<not> hasCycle (fst (generateRandomDAG 3 2 rnd_example)) (snd (generateRandomDAG 3 2 rnd_example))"
    and "distinct (map (\<lambda>e. (source e, target e)) (snd (generateRandomDAG 3 2 rnd_example)))"
    by (simp_all add: case_prod_beta)
  moreover have "length (snd (generateRandomDAG 3 2 rnd_example)) = 2"
    by (simp add: rnd_example_run)
  ultimately show ?thesis by blast
qed

subsection \<open>DFS: what one call emits and how the visited map evolves\<close>

declare dfsStepsDetailed_dfs.simps [simp del]

definition push_record :: "string \<Rightarrow> string list \<Rightarrow> (string, int) jsmap \<Rightarrow> DFSStep" where
  "push_record n stack visited =
     \<lparr>d_currentNode = n, d_stack = stack @ [n], d_visited = visited\<rparr>"

definition visit_record :: "string \<Rightarrow> string list \<Rightarrow> (string, int) jsmap \<Rightarrow> DFSStep" where
  "visit_record n stack visited =
     \<lparr>d_currentNode = n, d_stack = stack @ [n], d_visited = map_set n 1 visited\<rparr>"

definition pop_record :: "string \<Rightarrow> string list \<Rightarrow> (string, int) jsmap \<Rightarrow> DFSStep" where
  "pop_record n stack visited' =
     \<lparr>d_currentNode = n, d_stack = stack, d_visited = visited'\<rparr>"

definition after_visit :: "string \<Rightarrow> string list \<Rightarrow> dfs_state \<Rightarrow> dfs_state" where
  "after_visit n stack st =
     (map_set n 1 (fst st), snd st @ [push_record n stack (fst st), visit_record n stack (fst st)])"

lemma dfs_unfold:
  "dfsStepsDetailed_dfs adjList n stack st =
     (fst (dfsStepsDetailed_for adjList (get_or_empty adjList n) (stack @ [n]) (after_visit n stack st)),
      snd (dfsStepsDetailed_for adjList (get_or_empty adjList n) (stack @ [n]) (after_visit n stack st))
      @ [pop_record n stack
           (fst (dfsStepsDetailed_for adjList (get_or_empty adjList n) (stack @ [n])
                  (after_visit n stack st)))])"
  by (cases st)
     (simp add: dfsStepsDetailed_dfs.simps after_visit_def push_record_def visit_record_def
        pop_record_def split: prod.splits)

lemma dfs_steps_extend:
  "\<exists>tr. snd (dfsStepsDetailed_dfs adjList nodeId stack st) = snd st @ tr"
  "\<exists>tr. snd (dfsStepsDetailed_for adjList ws newStack st) = snd st @ tr"
proof (induction adjList nodeId stack st and adjList ws newStack st
    rule: dfsStepsDetailed_dfs_dfsStepsDetailed_for.induct)
  case (1 adjList nodeId stack visited steps)
  let ?st1 = "after_visit nodeId stack (visited, steps)"
  from 1 obtain tr where
    "snd (dfsStepsDetailed_for adjList (get_or_empty adjList nodeId) (stack @ [nodeId]) ?st1)
     = snd ?st1 @ tr"
    by (auto simp: after_visit_def push_record_def visit_record_def)
  then show ?case
    by (simp add: dfs_unfold after_visit_def)
next
  case (2 adjList newStack st)
  show ?case by simp
next
  case (3 adjList neighbor rest newStack visited steps)
  show ?case
  proof (cases "map_get visited neighbor = Some 0")
    case True
    from "3.IH"(1)[OF True] obtain tr1 where
      t1: "snd (dfsStepsDetailed_dfs adjList neighbor newStack (visited, steps)) = steps @ tr1"
      by auto
    from "3.IH"(2)[OF True] obtain tr2 where
      "snd (dfsStepsDetailed_for adjList rest newStack
              (dfsStepsDetailed_dfs adjList neighbor newStack (visited, steps)))
       = snd (dfsStepsDetailed_dfs adjList neighbor newStack (visited, steps)) @ tr2"
      by auto
    with t1 True show ?thesis by simp
  next
    case False
    with "3.IH"(3) show ?thesis by simp
  qed
qed

definition dfs_emitted ::
  "(string, string list) jsmap \<Rightarrow> string \<Rightarrow> string list \<Rightarrow> dfs_state \<Rightarrow> DFSStep list" where
  "dfs_emitted adjList nodeId stack st =
     drop (length (snd st)) (snd (dfsStepsDetailed_dfs adjList nodeId stack st))"

definition for_emitted ::
  "(string, string list) jsmap \<Rightarrow> string list \<Rightarrow> string list \<Rightarrow> dfs_state \<Rightarrow> DFSStep list" where
  "for_emitted adjList ws newStack st =
     drop (length (snd st)) (snd (dfsStepsDetailed_for adjList ws newStack st))"

lemma snd_dfs: "snd (dfsStepsDetailed_dfs adjList nodeId stack st)
    = snd st @ dfs_emitted adjList nodeId stack st"
  using dfs_steps_extend(1)[of adjList nodeId stack st] by (auto simp: dfs_emitted_def)

lemma snd_for: "snd (dfsStepsDetailed_for adjList ws newStack st)
    = snd st @ for_emitted adjList ws newStack st"
  using dfs_steps_extend(2)[of adjList ws newStack st] by (auto simp: for_emitted_def)

lemma fst_dfs:
  "fst (dfsStepsDetailed_dfs adjList n stack st)
   = fst (dfsStepsDetailed_for adjList (get_or_empty adjList n) (stack @ [n]) (after_visit n stack st))"
  by (simp add: dfs_unfold)

lemma dfs_emitted_eq:
  "dfs_emitted adjList n stack st =
     push_record n stack (fst st) # visit_record n stack (fst st) #
     for_emitted adjList (get_or_empty adjList n) (stack @ [n]) (after_visit n stack st) @
     [pop_record n stack (fst (dfsStepsDetailed_dfs adjList n stack st))]"
proof -
  let ?st1 = "after_visit n stack st"
  let ?r = "dfsStepsDetailed_for adjList (get_or_empty adjList n) (stack @ [n]) ?st1"
  have "snd (dfsStepsDetailed_dfs adjList n stack st)
        = snd ?r @ [pop_record n stack (fst ?r)]"
    by (simp add: dfs_unfold)
  also have "snd ?r = snd ?st1 @ for_emitted adjList (get_or_empty adjList n) (stack @ [n]) ?st1"
    by (rule snd_for)
  finally show ?thesis
    unfolding dfs_emitted_def fst_dfs by (simp add: after_visit_def)
qed

lemma for_emitted_Nil [simp]: "for_emitted adjList [] newStack st = []"
  by (simp add: for_emitted_def)

lemma for_emitted_Cons:
  "for_emitted adjList (w # ws) newStack st =
     (if map_get (fst st) w = Some 0
      then dfs_emitted adjList w newStack st @
           for_emitted adjList ws newStack (dfsStepsDetailed_dfs adjList w newStack st)
      else for_emitted adjList ws newStack st)"
proof -
  obtain V steps where st: "st = (V, steps)" by (cases st)
  show ?thesis
  proof (cases "map_get V w = Some 0")
    case True
    let ?st1 = "dfsStepsDetailed_dfs adjList w newStack st"
    have "snd (dfsStepsDetailed_for adjList (w # ws) newStack st)
          = snd (dfsStepsDetailed_for adjList ws newStack ?st1)"
      using True by (simp add: st)
    also have "\<dots> = snd ?st1 @ for_emitted adjList ws newStack ?st1" by (rule snd_for)
    also have "snd ?st1 = snd st @ dfs_emitted adjList w newStack st" by (rule snd_dfs)
    finally show ?thesis using True by (simp add: for_emitted_def[of _ "w # ws"] st)
  next
    case False
    then show ?thesis by (simp add: for_emitted_def st)
  qed
qed

lemma fst_for_Nil [simp]: "fst (dfsStepsDetailed_for adjList [] newStack st) = fst st"
  by simp

lemma fst_for_Cons:
  "fst (dfsStepsDetailed_for adjList (w # ws) newStack st) =
     (if map_get (fst st) w = Some 0
      then fst (dfsStepsDetailed_for adjList ws newStack (dfsStepsDetailed_dfs adjList w newStack st))
      else fst (dfsStepsDetailed_for adjList ws newStack st))"
  by (cases st) simp


definition vis_le :: "(string, int) jsmap \<Rightarrow> (string, int) jsmap \<Rightarrow> bool" where
  "vis_le V V' \<longleftrightarrow>
     (\<forall>k. map_get V' k = map_get V k \<or> (map_get V k = Some 0 \<and> map_get V' k = Some 1))"

definition new_nodes :: "(string, int) jsmap \<Rightarrow> (string, int) jsmap \<Rightarrow> string set" where
  "new_nodes V V' = {k. map_get V k = Some 0 \<and> map_get V' k = Some 1}"

lemma vis_le_refl [simp]: "vis_le V V"
  by (simp add: vis_le_def)

lemma vis_le_trans: "vis_le V1 V2 \<Longrightarrow> vis_le V2 V3 \<Longrightarrow> vis_le V1 V3"
  unfolding vis_le_def by (metis option.inject zero_neq_one)

lemma vis_le_map_set: "map_get V n = Some 0 \<Longrightarrow> vis_le V (map_set n 1 V)"
  by (simp add: vis_le_def)

lemma vis_le_one: "vis_le V V' \<Longrightarrow> map_get V k = Some 1 \<Longrightarrow> map_get V' k = Some 1"
  unfolding vis_le_def by (metis option.inject zero_neq_one)

lemma vis_le_zero: "vis_le V V' \<Longrightarrow> map_get V' k = Some 0 \<Longrightarrow> map_get V k = Some 0"
  unfolding vis_le_def by (metis option.inject zero_neq_one)

lemma vis_le_not_zero: "vis_le V V' \<Longrightarrow> map_get V k \<noteq> Some 0 \<Longrightarrow> map_get V' k \<noteq> Some 0"
  using vis_le_zero by blast

lemma vis_le_None: "vis_le V V' \<Longrightarrow> map_get V k = None \<longleftrightarrow> map_get V' k = None"
  unfolding vis_le_def by (metis option.distinct(1))

lemma vis_le_cases:
  "vis_le V V' \<Longrightarrow> map_get V k = Some 0 \<Longrightarrow> map_get V' k = Some 0 \<or> map_get V' k = Some 1"
  unfolding vis_le_def by metis

lemma fst_after_visit [simp]: "fst (after_visit n stack st) = map_set n 1 (fst st)"
  by (simp add: after_visit_def)

lemma dfs_vis_le:
  "map_get (fst st) nodeId = Some 0 \<Longrightarrow>
     vis_le (fst st) (fst (dfsStepsDetailed_dfs adjList nodeId stack st)) \<and>
     map_get (fst (dfsStepsDetailed_dfs adjList nodeId stack st)) nodeId = Some 1"
  "vis_le (fst st) (fst (dfsStepsDetailed_for adjList ws newStack st)) \<and>
     (\<forall>w \<in> set ws. map_get (fst st) w = Some 0 \<longrightarrow>
        map_get (fst (dfsStepsDetailed_for adjList ws newStack st)) w = Some 1)"
proof (induction adjList nodeId stack st and adjList ws newStack st
    rule: dfsStepsDetailed_dfs_dfsStepsDetailed_for.induct)
  case (1 adjList nodeId stack visited steps)
  let ?st = "(visited, steps)"
  let ?V' = "fst (dfsStepsDetailed_for adjList (get_or_empty adjList nodeId) (stack @ [nodeId])
                (after_visit nodeId stack ?st))"
  from "1.IH" have le: "vis_le (map_set nodeId 1 visited) ?V'"
    by (simp add: after_visit_def push_record_def visit_record_def)
  from "1.prems" have "vis_le visited (map_set nodeId 1 visited)"
    by (simp add: vis_le_map_set)
  with le have "vis_le visited ?V'" by (rule vis_le_trans[rotated])
  moreover have "map_get ?V' nodeId = Some 1"
    by (rule vis_le_one[OF le]) simp
  ultimately show ?case by (simp add: fst_dfs)
next
  case (2 adjList newStack st)
  show ?case by simp
next
  case (3 adjList neighbor rest newStack visited steps)
  let ?st = "(visited, steps)"
  show ?case
  proof (cases "map_get visited neighbor = Some 0")
    case True
    let ?st1 = "dfsStepsDetailed_dfs adjList neighbor newStack ?st"
    let ?V' = "fst (dfsStepsDetailed_for adjList rest newStack ?st1)"
    from "3.IH"(1)[OF True] True have le1: "vis_le visited (fst ?st1)"
      and n1: "map_get (fst ?st1) neighbor = Some 1" by simp_all
    from "3.IH"(2)[OF True] have le2: "vis_le (fst ?st1) ?V'"
      and all2: "\<forall>w \<in> set rest. map_get (fst ?st1) w = Some 0 \<longrightarrow> map_get ?V' w = Some 1"
      by simp_all
    have eq: "fst (dfsStepsDetailed_for adjList (neighbor # rest) newStack ?st) = ?V'"
      using True by simp
    have "vis_le visited ?V'" using le1 le2 by (rule vis_le_trans)
    moreover have "map_get ?V' neighbor = Some 1" using le2 n1 by (rule vis_le_one)
    moreover have "map_get ?V' w = Some 1" if "w \<in> set rest" "map_get visited w = Some 0" for w
    proof -
      from vis_le_cases[OF le1 that(2)] show ?thesis
      proof
        assume "map_get (fst ?st1) w = Some 0"
        with all2 that(1) show ?thesis by blast
      next
        assume "map_get (fst ?st1) w = Some 1"
        with le2 show ?thesis by (rule vis_le_one)
      qed
    qed
    ultimately show ?thesis unfolding eq by auto
  next
    case False
    with "3.IH"(3) show ?thesis by auto
  qed
qed


definition rec_ok ::
  "(string, int) jsmap \<Rightarrow> (string, int) jsmap \<Rightarrow> string list \<Rightarrow> DFSStep \<Rightarrow> bool" where
  "rec_ok V V' base r \<longleftrightarrow>
     d_currentNode r \<in> new_nodes V V' \<and> vis_le V (d_visited r) \<and> vis_le (d_visited r) V' \<and>
     (\<exists>rest. d_stack r = base @ rest \<and> set rest \<subseteq> new_nodes V V')"

lemma new_nodes_mono:
  "vis_le V V1 \<Longrightarrow> vis_le V2 V' \<Longrightarrow> new_nodes V1 V2 \<subseteq> new_nodes V V'"
  by (auto simp: new_nodes_def dest: vis_le_zero vis_le_one)

lemma new_nodes_split:
  "vis_le V V1 \<Longrightarrow> new_nodes V V' \<subseteq> new_nodes V V1 \<union> new_nodes V1 V'"
  by (auto simp: new_nodes_def dest: vis_le_cases)

lemma new_nodes_after_visit:
  "new_nodes V V' \<subseteq> insert n (new_nodes (map_set n 1 V) V')"
  by (auto simp: new_nodes_def)

lemma rec_ok_mono:
  assumes "vis_le V V1" and "vis_le V2 V'" and "rec_ok V1 V2 base r"
  shows "rec_ok V V' base r"
proof -
  note sub = new_nodes_mono[OF assms(1,2)]
  from assms(3) obtain rest where r: "d_currentNode r \<in> new_nodes V1 V2"
    "vis_le V1 (d_visited r)" "vis_le (d_visited r) V2"
    "d_stack r = base @ rest" "set rest \<subseteq> new_nodes V1 V2"
    by (auto simp: rec_ok_def)
  have "vis_le V (d_visited r)" using assms(1) r(2) by (rule vis_le_trans)
  moreover have "vis_le (d_visited r) V'" using r(3) assms(2) by (rule vis_le_trans)
  moreover have "d_currentNode r \<in> new_nodes V V'" using r(1) sub by blast
  moreover have "set rest \<subseteq> new_nodes V V'" using r(5) sub by blast
  ultimately show ?thesis using r(4) unfolding rec_ok_def by blast
qed

lemma rec_ok_base:
  assumes "rec_ok V V' (base @ [n]) r" and "n \<in> new_nodes V V'"
  shows "rec_ok V V' base r"
proof -
  from assms(1) obtain rest where "d_stack r = (base @ [n]) @ rest" "set rest \<subseteq> new_nodes V V'"
    by (auto simp: rec_ok_def)
  then have "d_stack r = base @ (n # rest)" "set (n # rest) \<subseteq> new_nodes V V'"
    using assms(2) by simp_all
  then have "\<exists>rest. d_stack r = base @ rest \<and> set rest \<subseteq> new_nodes V V'" by blast
  with assms(1) show ?thesis by (simp add: rec_ok_def)
qed

lemma dfs_records_ok:
  "map_get (fst st) nodeId = Some 0 \<Longrightarrow>
     \<forall>r \<in> set (dfs_emitted adjList nodeId stack st).
       rec_ok (fst st) (fst (dfsStepsDetailed_dfs adjList nodeId stack st)) stack r"
  "\<forall>r \<in> set (for_emitted adjList ws newStack st).
       rec_ok (fst st) (fst (dfsStepsDetailed_for adjList ws newStack st)) newStack r"
proof (induction adjList nodeId stack st and adjList ws newStack st
    rule: dfsStepsDetailed_dfs_dfsStepsDetailed_for.induct)
  case (1 adjList nodeId stack visited steps)
  let ?st = "(visited, steps)"
  let ?st1 = "after_visit nodeId stack ?st"
  let ?V1 = "map_set nodeId 1 visited"
  let ?V' = "fst (dfsStepsDetailed_dfs adjList nodeId stack ?st)"
  let ?mid = "for_emitted adjList (get_or_empty adjList nodeId) (stack @ [nodeId]) ?st1"
  have pre: "map_get visited nodeId = Some 0" using "1.prems" by simp
  from dfs_vis_le(1)[of ?st nodeId adjList stack] pre
  have le: "vis_le visited ?V'" and one: "map_get ?V' nodeId = Some 1" by simp_all
  have le0: "vis_le visited ?V1" using pre by (rule vis_le_map_set)
  have le1: "vis_le ?V1 ?V'"
    using dfs_vis_le(2)[of ?st1 adjList "get_or_empty adjList nodeId" "stack @ [nodeId]"]
    by (simp add: fst_dfs)
  have new: "nodeId \<in> new_nodes visited ?V'" using pre one by (simp add: new_nodes_def)
  have push: "rec_ok visited ?V' stack (push_record nodeId stack visited)"
    using new le by (simp add: rec_ok_def push_record_def)
  have visit: "rec_ok visited ?V' stack (visit_record nodeId stack visited)"
    using new le0 le1 by (simp add: rec_ok_def visit_record_def)
  have pop: "rec_ok visited ?V' stack (pop_record nodeId stack ?V')"
    using new le by (simp add: rec_ok_def pop_record_def)
  have mid: "rec_ok visited ?V' stack r" if "r \<in> set ?mid" for r
  proof -
    from "1.IH" that have "rec_ok ?V1 ?V' (stack @ [nodeId]) r"
      by (simp add: after_visit_def push_record_def visit_record_def fst_dfs)
    then have "rec_ok visited ?V' (stack @ [nodeId]) r"
      by (rule rec_ok_mono[OF le0 vis_le_refl])
    then show ?thesis using new by (rule rec_ok_base)
  qed
  show ?case
    unfolding dfs_emitted_eq[of adjList nodeId stack ?st]
    using push visit pop mid by auto
next
  case (2 adjList newStack st)
  show ?case by simp
next
  case (3 adjList neighbor rest newStack visited steps)
  let ?st = "(visited, steps)"
  show ?case
  proof (cases "map_get visited neighbor = Some 0")
    case True
    let ?st1 = "dfsStepsDetailed_dfs adjList neighbor newStack ?st"
    let ?V' = "fst (dfsStepsDetailed_for adjList rest newStack ?st1)"
    have eq: "fst (dfsStepsDetailed_for adjList (neighbor # rest) newStack ?st) = ?V'"
      using True by simp
    have le1: "vis_le visited (fst ?st1)"
      using dfs_vis_le(1)[of ?st neighbor adjList newStack] True by simp
    have le2: "vis_le (fst ?st1) ?V'"
      using dfs_vis_le(2)[of ?st1 adjList rest newStack] by simp
    have a: "rec_ok visited ?V' newStack r" if "r \<in> set (dfs_emitted adjList neighbor newStack ?st)" for r
    proof -
      from "3.IH"(1)[OF True] True that have "rec_ok visited (fst ?st1) newStack r" by simp
      then show ?thesis by (rule rec_ok_mono[OF vis_le_refl le2])
    qed
    have b: "rec_ok visited ?V' newStack r" if "r \<in> set (for_emitted adjList rest newStack ?st1)" for r
    proof -
      from "3.IH"(2)[OF True] that have "rec_ok (fst ?st1) ?V' newStack r" by simp
      then show ?thesis by (rule rec_ok_mono[OF le1 vis_le_refl])
    qed
    show ?thesis
      unfolding eq for_emitted_Cons[of adjList neighbor rest newStack ?st]
      using True a b by auto
  next
    case False
    with "3.IH"(3) show ?thesis by (simp add: for_emitted_Cons)
  qed
qed

definition adj_rel :: "(string, string list) jsmap \<Rightarrow> string set \<Rightarrow> (string \<times> string) set" where
  "adj_rel adjList K = {(u, w). w \<in> set (get_or_empty adjList u) \<and> w \<in> K}"

definition keys_of :: "(string, int) jsmap \<Rightarrow> string set" where
  "keys_of V = {k. map_get V k \<noteq> None}"

lemma keys_of_vis_le:
  assumes "vis_le V V'"
  shows "keys_of V' = keys_of V"
proof -
  have "map_get V' k \<noteq> None \<longleftrightarrow> map_get V k \<noteq> None" for k
    using vis_le_None[OF assms, of k] by simp
  then show ?thesis by (simp add: keys_of_def)
qed

lemma dfs_new_reachable:
  "map_get (fst st) nodeId = Some 0 \<Longrightarrow>
     new_nodes (fst st) (fst (dfsStepsDetailed_dfs adjList nodeId stack st))
       \<subseteq> (adj_rel adjList (keys_of (fst st)))\<^sup>* `` {nodeId}"
  "new_nodes (fst st) (fst (dfsStepsDetailed_for adjList ws newStack st))
       \<subseteq> (adj_rel adjList (keys_of (fst st)))\<^sup>* `` {w \<in> set ws. map_get (fst st) w = Some 0}"
proof (induction adjList nodeId stack st and adjList ws newStack st
    rule: dfsStepsDetailed_dfs_dfsStepsDetailed_for.induct)
  case (1 adjList nodeId stack visited steps)
  let ?st = "(visited, steps)"
  let ?st1 = "after_visit nodeId stack ?st"
  let ?V1 = "map_set nodeId 1 visited"
  let ?V' = "fst (dfsStepsDetailed_dfs adjList nodeId stack ?st)"
  let ?G = "adj_rel adjList (keys_of visited)"
  have pre: "map_get visited nodeId = Some 0" using "1.prems" by simp
  have k: "keys_of ?V1 = keys_of visited"
    using pre by (intro keys_of_vis_le vis_le_map_set)
  from "1.IH" have ih: "new_nodes ?V1 ?V'
      \<subseteq> ?G\<^sup>* `` {w \<in> set (get_or_empty adjList nodeId). map_get ?V1 w = Some 0}"
    by (simp add: after_visit_def push_record_def visit_record_def fst_dfs k)
  have "x \<in> ?G\<^sup>* `` {nodeId}" if "x \<in> new_nodes visited ?V'" for x
  proof (cases "x = nodeId")
    case True
    then show ?thesis by simp
  next
    case False
    with that new_nodes_after_visit[of visited ?V' nodeId] have "x \<in> new_nodes ?V1 ?V'" by blast
    with ih obtain w where w: "w \<in> set (get_or_empty adjList nodeId)" "map_get ?V1 w = Some 0"
      "(w, x) \<in> ?G\<^sup>*" by blast
    from w(2) have "w \<in> keys_of visited" unfolding k[symmetric] by (simp add: keys_of_def)
    with w(1) have "(nodeId, w) \<in> ?G" by (simp add: adj_rel_def)
    with w(3) show ?thesis by (auto intro: converse_rtrancl_into_rtrancl)
  qed
  then show ?case by auto
next
  case (2 adjList newStack st)
  show ?case by (simp add: new_nodes_def)
next
  case (3 adjList neighbor rest newStack visited steps)
  let ?st = "(visited, steps)"
  let ?G = "adj_rel adjList (keys_of visited)"
  show ?case
  proof (cases "map_get visited neighbor = Some 0")
    case True
    let ?st1 = "dfsStepsDetailed_dfs adjList neighbor newStack ?st"
    let ?V' = "fst (dfsStepsDetailed_for adjList rest newStack ?st1)"
    have eq: "fst (dfsStepsDetailed_for adjList (neighbor # rest) newStack ?st) = ?V'"
      using True by simp
    have le1: "vis_le visited (fst ?st1)"
      using dfs_vis_le(1)[of ?st neighbor adjList newStack] True by simp
    have k: "keys_of (fst ?st1) = keys_of visited" using le1 by (rule keys_of_vis_le)
    from "3.IH"(1)[OF True] True
    have a: "new_nodes visited (fst ?st1) \<subseteq> ?G\<^sup>* `` {neighbor}" by simp
    from "3.IH"(2)[OF True]
    have b: "new_nodes (fst ?st1) ?V' \<subseteq> ?G\<^sup>* `` {w \<in> set rest. map_get (fst ?st1) w = Some 0}"
      by (simp add: k)
    have "x \<in> ?G\<^sup>* `` {w \<in> set (neighbor # rest). map_get visited w = Some 0}"
      if "x \<in> new_nodes visited ?V'" for x
    proof -
      from that new_nodes_split[OF le1, of ?V']
      consider "x \<in> new_nodes visited (fst ?st1)" | "x \<in> new_nodes (fst ?st1) ?V'" by blast
      then show ?thesis
      proof cases
        case 1
        with a True show ?thesis by auto
      next
        case 2
        with b obtain w where "w \<in> set rest" "map_get (fst ?st1) w = Some 0" "(w, x) \<in> ?G\<^sup>*"
          by blast
        moreover from this(2) le1 have "map_get visited w = Some 0" by (metis vis_le_zero)
        ultimately show ?thesis by auto
      qed
    qed
    then show ?thesis unfolding eq by auto
  next
    case False
    with "3.IH"(3) show ?thesis by auto
  qed
qed

lemma dfs_new_closed:
  "map_get (fst st) nodeId = Some 0 \<Longrightarrow>
     \<forall>x \<in> new_nodes (fst st) (fst (dfsStepsDetailed_dfs adjList nodeId stack st)).
       \<forall>w \<in> set (get_or_empty adjList x).
         map_get (fst (dfsStepsDetailed_dfs adjList nodeId stack st)) w \<noteq> Some 0"
  "\<forall>x \<in> new_nodes (fst st) (fst (dfsStepsDetailed_for adjList ws newStack st)).
       \<forall>w \<in> set (get_or_empty adjList x).
         map_get (fst (dfsStepsDetailed_for adjList ws newStack st)) w \<noteq> Some 0"
proof (induction adjList nodeId stack st and adjList ws newStack st
    rule: dfsStepsDetailed_dfs_dfsStepsDetailed_for.induct)
  case (1 adjList nodeId stack visited steps)
  let ?st = "(visited, steps)"
  let ?st1 = "after_visit nodeId stack ?st"
  let ?V1 = "map_set nodeId 1 visited"
  let ?V' = "fst (dfsStepsDetailed_dfs adjList nodeId stack ?st)"
  from "1.IH" have ih: "\<forall>x \<in> new_nodes ?V1 ?V'. \<forall>w \<in> set (get_or_empty adjList x).
      map_get ?V' w \<noteq> Some 0"
    by (simp add: after_visit_def push_record_def visit_record_def fst_dfs)
  from dfs_vis_le(2)[of ?st1 adjList "get_or_empty adjList nodeId" "stack @ [nodeId]"]
  have le1: "vis_le ?V1 ?V'"
    and all: "\<forall>w \<in> set (get_or_empty adjList nodeId). map_get ?V1 w = Some 0 \<longrightarrow>
                 map_get ?V' w = Some 1"
    by (simp_all add: fst_dfs)
  have "map_get ?V' w \<noteq> Some 0"
    if "x \<in> new_nodes visited ?V'" "w \<in> set (get_or_empty adjList x)" for x w
  proof (cases "x = nodeId")
    case True
    show ?thesis
    proof (cases "map_get ?V1 w = Some 0")
      case True
      with all that(2) \<open>x = nodeId\<close> show ?thesis by simp
    next
      case False
      with le1 show ?thesis by (rule vis_le_not_zero)
    qed
  next
    case False
    with that(1) new_nodes_after_visit[of visited ?V' nodeId] have "x \<in> new_nodes ?V1 ?V'" by blast
    with ih that(2) show ?thesis by blast
  qed
  then show ?case by simp
next
  case (2 adjList newStack st)
  show ?case by (auto simp: new_nodes_def)
next
  case (3 adjList neighbor rest newStack visited steps)
  let ?st = "(visited, steps)"
  show ?case
  proof (cases "map_get visited neighbor = Some 0")
    case True
    let ?st1 = "dfsStepsDetailed_dfs adjList neighbor newStack ?st"
    let ?V' = "fst (dfsStepsDetailed_for adjList rest newStack ?st1)"
    have eq: "fst (dfsStepsDetailed_for adjList (neighbor # rest) newStack ?st) = ?V'"
      using True by simp
    have le1: "vis_le visited (fst ?st1)"
      using dfs_vis_le(1)[of ?st neighbor adjList newStack] True by simp
    have le2: "vis_le (fst ?st1) ?V'"
      using dfs_vis_le(2)[of ?st1 adjList rest newStack] by simp
    from "3.IH"(1)[OF True] True
    have a: "\<forall>x \<in> new_nodes visited (fst ?st1). \<forall>w \<in> set (get_or_empty adjList x).
               map_get (fst ?st1) w \<noteq> Some 0" by simp
    from "3.IH"(2)[OF True]
    have b: "\<forall>x \<in> new_nodes (fst ?st1) ?V'. \<forall>w \<in> set (get_or_empty adjList x).
               map_get ?V' w \<noteq> Some 0" by simp
    have "map_get ?V' w \<noteq> Some 0"
      if "x \<in> new_nodes visited ?V'" "w \<in> set (get_or_empty adjList x)" for x w
    proof -
      from that(1) new_nodes_split[OF le1, of ?V']
      consider "x \<in> new_nodes visited (fst ?st1)" | "x \<in> new_nodes (fst ?st1) ?V'" by blast
      then show ?thesis
      proof cases
        case 1
        with a that(2) have "map_get (fst ?st1) w \<noteq> Some 0" by blast
        with le2 show ?thesis by (rule vis_le_not_zero)
      next
        case 2
        with b that(2) show ?thesis by blast
      qed
    qed
    then show ?thesis unfolding eq by simp
  next
    case False
    with "3.IH"(3) show ?thesis by auto
  qed
qed


definition dfs_block :: "(string, string list) jsmap \<Rightarrow> DFSStep list \<Rightarrow> string \<Rightarrow> bool" where
  "dfs_block adjList tr v \<longleftrightarrow>
     (\<exists>pre mid post p V0 V2.
        tr = pre @ [push_record v p V0, visit_record v p V0] @ mid @ [pop_record v p V2] @ post \<and>
        v \<notin> set p \<and> map_get V0 v = Some 0 \<and>
        (\<forall>r \<in> set pre \<union> set mid \<union> set post. d_currentNode r \<noteq> v) \<and>
        (\<forall>r \<in> set mid. \<exists>rest. d_stack r = p @ [v] @ rest) \<and>
        (\<forall>w \<in> set (get_or_empty adjList v).
           map_get V2 w \<noteq> Some 0 \<and>
           (map_get (map_set v 1 V0) w = Some 0 \<longrightarrow>
              (\<exists>p' V'. pop_record w p' V' \<in> set mid \<and> w \<notin> set p'))))"

lemma dfs_block_prepend:
  assumes "dfs_block adjList tr v" and "\<forall>r \<in> set xs. d_currentNode r \<noteq> v"
  shows "dfs_block adjList (xs @ tr) v"
proof -
  from assms(1) obtain pre mid post p V0 V2 where
    tr: "tr = pre @ [push_record v p V0, visit_record v p V0] @ mid @ [pop_record v p V2] @ post"
    and rest: "v \<notin> set p" "map_get V0 v = Some 0"
      "\<forall>r \<in> set pre \<union> set mid \<union> set post. d_currentNode r \<noteq> v"
      "\<forall>r \<in> set mid. \<exists>rest. d_stack r = p @ [v] @ rest"
      "\<forall>w \<in> set (get_or_empty adjList v).
           map_get V2 w \<noteq> Some 0 \<and>
           (map_get (map_set v 1 V0) w = Some 0 \<longrightarrow>
              (\<exists>p' V'. pop_record w p' V' \<in> set mid \<and> w \<notin> set p'))"
    unfolding dfs_block_def by blast
  have 1: "xs @ tr = (xs @ pre) @ [push_record v p V0, visit_record v p V0] @ mid @
      [pop_record v p V2] @ post" by (simp add: tr)
  have 2: "\<forall>r \<in> set (xs @ pre) \<union> set mid \<union> set post. d_currentNode r \<noteq> v"
    using rest(3) assms(2) by auto
  show ?thesis unfolding dfs_block_def
    using 1 rest(1,2) 2 rest(4,5) by blast
qed

lemma dfs_block_append:
  assumes "dfs_block adjList tr v" and "\<forall>r \<in> set xs. d_currentNode r \<noteq> v"
  shows "dfs_block adjList (tr @ xs) v"
proof -
  from assms(1) obtain pre mid post p V0 V2 where
    tr: "tr = pre @ [push_record v p V0, visit_record v p V0] @ mid @ [pop_record v p V2] @ post"
    and rest: "v \<notin> set p" "map_get V0 v = Some 0"
      "\<forall>r \<in> set pre \<union> set mid \<union> set post. d_currentNode r \<noteq> v"
      "\<forall>r \<in> set mid. \<exists>rest. d_stack r = p @ [v] @ rest"
      "\<forall>w \<in> set (get_or_empty adjList v).
           map_get V2 w \<noteq> Some 0 \<and>
           (map_get (map_set v 1 V0) w = Some 0 \<longrightarrow>
              (\<exists>p' V'. pop_record w p' V' \<in> set mid \<and> w \<notin> set p'))"
    unfolding dfs_block_def by blast
  have 1: "tr @ xs = pre @ [push_record v p V0, visit_record v p V0] @ mid @
      [pop_record v p V2] @ (post @ xs)" by (simp add: tr)
  have 2: "\<forall>r \<in> set pre \<union> set mid \<union> set (post @ xs). d_currentNode r \<noteq> v"
    using rest(3) assms(2) by auto
  show ?thesis unfolding dfs_block_def
    using 1 rest(1,2) 2 rest(4,5) by blast
qed

lemma dfs_block_pop:
  assumes "dfs_block adjList tr v"
  shows "\<exists>p' V'. pop_record v p' V' \<in> set tr \<and> v \<notin> set p'"
proof -
  from assms obtain pre mid post p V0 V2 where
    "tr = pre @ [push_record v p V0, visit_record v p V0] @ mid @ [pop_record v p V2] @ post"
    "v \<notin> set p"
    unfolding dfs_block_def by blast
  then have "pop_record v p V2 \<in> set tr" "v \<notin> set p" by simp_all
  then show ?thesis by blast
qed


lemma rec_ok_current: "rec_ok V V' base r \<Longrightarrow> d_currentNode r \<in> new_nodes V V'"
  by (simp add: rec_ok_def)

lemma dfs_blocks:
  "map_get (fst st) nodeId = Some 0 \<Longrightarrow> \<forall>x \<in> set stack. map_get (fst st) x \<noteq> Some 0 \<Longrightarrow>
     \<forall>v \<in> new_nodes (fst st) (fst (dfsStepsDetailed_dfs adjList nodeId stack st)).
       dfs_block adjList (dfs_emitted adjList nodeId stack st) v"
  "\<forall>x \<in> set newStack. map_get (fst st) x \<noteq> Some 0 \<Longrightarrow>
     \<forall>v \<in> new_nodes (fst st) (fst (dfsStepsDetailed_for adjList ws newStack st)).
       dfs_block adjList (for_emitted adjList ws newStack st) v"
proof (induction adjList nodeId stack st and adjList ws newStack st
    rule: dfsStepsDetailed_dfs_dfsStepsDetailed_for.induct)
  case (1 adjList nodeId stack visited steps)
  let ?st = "(visited, steps)"
  let ?st1 = "after_visit nodeId stack ?st"
  let ?V1 = "map_set nodeId 1 visited"
  let ?V' = "fst (dfsStepsDetailed_dfs adjList nodeId stack ?st)"
  let ?mid = "for_emitted adjList (get_or_empty adjList nodeId) (stack @ [nodeId]) ?st1"
  let ?push = "push_record nodeId stack visited"
  let ?visit = "visit_record nodeId stack visited"
  let ?pop = "pop_record nodeId stack ?V'"
  have pre: "map_get visited nodeId = Some 0" using "1.prems"(1) by simp
  have stk: "\<forall>x \<in> set stack. map_get visited x \<noteq> Some 0" using "1.prems"(2) by simp
  have em: "dfs_emitted adjList nodeId stack ?st = [?push, ?visit] @ ?mid @ [?pop]"
    by (simp add: dfs_emitted_eq[of adjList nodeId stack ?st])
  have stk1: "\<forall>x \<in> set (stack @ [nodeId]). map_get (fst ?st1) x \<noteq> Some 0"
    using stk by simp
  from "1.IH" stk1 have ih: "\<forall>v \<in> new_nodes ?V1 ?V'. dfs_block adjList ?mid v"
    by (simp add: after_visit_def push_record_def visit_record_def fst_dfs)
  from dfs_vis_le(2)[of ?st1 adjList "get_or_empty adjList nodeId" "stack @ [nodeId]"]
  have le1: "vis_le ?V1 ?V'"
    and all: "\<forall>w \<in> set (get_or_empty adjList nodeId). map_get ?V1 w = Some 0 \<longrightarrow>
                 map_get ?V' w = Some 1"
    by (simp_all add: fst_dfs)
  have midrec: "rec_ok ?V1 ?V' (stack @ [nodeId]) r" if "r \<in> set ?mid" for r
    using dfs_records_ok(2)[of adjList "get_or_empty adjList nodeId" "stack @ [nodeId]" ?st1] that
    by (simp add: fst_dfs)
  have midcur: "d_currentNode r \<noteq> nodeId" if "r \<in> set ?mid" for r
  proof -
    from midrec[OF that] have "map_get ?V1 (d_currentNode r) = Some 0"
      by (simp add: rec_ok_def new_nodes_def)
    then show ?thesis by auto
  qed
  have "dfs_block adjList (dfs_emitted adjList nodeId stack ?st) v"
    if v: "v \<in> new_nodes visited ?V'" for v
  proof (cases "v = nodeId")
    case True
    have a: "nodeId \<notin> set stack" using stk pre by blast
    have b: "\<forall>r \<in> set [] \<union> set ?mid \<union> set []. d_currentNode r \<noteq> nodeId"
      using midcur by simp
    have c: "\<forall>r \<in> set ?mid. \<exists>rest. d_stack r = stack @ [nodeId] @ rest"
    proof
      fix r assume "r \<in> set ?mid"
      from midrec[OF this] show "\<exists>rest. d_stack r = stack @ [nodeId] @ rest"
        by (auto simp: rec_ok_def)
    qed
    have d: "\<forall>w \<in> set (get_or_empty adjList nodeId).
           map_get ?V' w \<noteq> Some 0 \<and>
           (map_get (map_set nodeId 1 visited) w = Some 0 \<longrightarrow>
              (\<exists>p' V'. pop_record w p' V' \<in> set ?mid \<and> w \<notin> set p'))"
    proof (intro ballI conjI impI)
      fix w assume w: "w \<in> set (get_or_empty adjList nodeId)"
      from dfs_new_closed(1)[of ?st nodeId adjList stack] pre v True w
      show "map_get ?V' w \<noteq> Some 0" by simp
      assume z: "map_get (map_set nodeId 1 visited) w = Some 0"
      with all w have "map_get ?V' w = Some 1" by blast
      with z have "w \<in> new_nodes ?V1 ?V'" by (simp add: new_nodes_def)
      with ih have "dfs_block adjList ?mid w" by blast
      then show "\<exists>p' V'. pop_record w p' V' \<in> set ?mid \<and> w \<notin> set p'"
        by (rule dfs_block_pop)
    qed
    have e: "dfs_emitted adjList nodeId stack ?st
        = [] @ [?push, ?visit] @ ?mid @ [?pop] @ []"
      using em by simp
    show ?thesis
      unfolding dfs_block_def True
      using e a pre b c d by blast
  next
    case False
    with v new_nodes_after_visit[of visited ?V' nodeId] have "v \<in> new_nodes ?V1 ?V'" by blast
    with ih have "dfs_block adjList ?mid v" by blast
    then have "dfs_block adjList ([?push, ?visit] @ ?mid) v"
      by (rule dfs_block_prepend) (use False in \<open>simp add: push_record_def visit_record_def\<close>)
    then have "dfs_block adjList (([?push, ?visit] @ ?mid) @ [?pop]) v"
      by (rule dfs_block_append) (use False in \<open>simp add: pop_record_def\<close>)
    then show ?thesis using em by simp
  qed
  then show ?case by simp
next
  case (2 adjList newStack st)
  show ?case by (auto simp: new_nodes_def)
next
  case (3 adjList neighbor rest newStack visited steps)
  let ?st = "(visited, steps)"
  have stk: "\<forall>x \<in> set newStack. map_get visited x \<noteq> Some 0" using "3.prems" by simp
  show ?case
  proof (cases "map_get visited neighbor = Some 0")
    case True
    let ?st1 = "dfsStepsDetailed_dfs adjList neighbor newStack ?st"
    let ?V' = "fst (dfsStepsDetailed_for adjList rest newStack ?st1)"
    let ?tw = "dfs_emitted adjList neighbor newStack ?st"
    let ?tr = "for_emitted adjList rest newStack ?st1"
    have eq: "fst (dfsStepsDetailed_for adjList (neighbor # rest) newStack ?st) = ?V'"
      using True by simp
    have em: "for_emitted adjList (neighbor # rest) newStack ?st = ?tw @ ?tr"
      using True by (simp add: for_emitted_Cons)
    have le1: "vis_le visited (fst ?st1)"
      using dfs_vis_le(1)[of ?st neighbor adjList newStack] True by simp
    have stk1: "\<forall>x \<in> set newStack. map_get (fst ?st1) x \<noteq> Some 0"
      using stk le1 by (blast dest: vis_le_not_zero)
    from "3.IH"(1)[OF True] True stk
    have a: "\<forall>v \<in> new_nodes visited (fst ?st1). dfs_block adjList ?tw v" by simp
    from "3.IH"(2)[OF True stk1]
    have b: "\<forall>v \<in> new_nodes (fst ?st1) ?V'. dfs_block adjList ?tr v" .
    have twrec: "d_currentNode r \<in> new_nodes visited (fst ?st1)" if "r \<in> set ?tw" for r
      using dfs_records_ok(1)[of ?st neighbor adjList newStack] True that
      by (auto dest: rec_ok_current)
    have trrec: "d_currentNode r \<in> new_nodes (fst ?st1) ?V'" if "r \<in> set ?tr" for r
      using dfs_records_ok(2)[of adjList rest newStack ?st1] that
      by (auto dest: rec_ok_current)
    have "dfs_block adjList (?tw @ ?tr) v" if "v \<in> new_nodes visited ?V'" for v
    proof -
      from that new_nodes_split[OF le1, of ?V']
      consider "v \<in> new_nodes visited (fst ?st1)" | "v \<in> new_nodes (fst ?st1) ?V'" by blast
      then show ?thesis
      proof cases
        case 1
        then have v1: "map_get (fst ?st1) v = Some 1" by (simp add: new_nodes_def)
        have "\<forall>r \<in> set ?tr. d_currentNode r \<noteq> v"
        proof
          fix r assume "r \<in> set ?tr"
          from trrec[OF this] have "map_get (fst ?st1) (d_currentNode r) = Some 0"
            by (simp add: new_nodes_def)
          with v1 show "d_currentNode r \<noteq> v" by auto
        qed
        with a 1 show ?thesis by (blast intro: dfs_block_append)
      next
        case 2
        then have v0: "map_get (fst ?st1) v = Some 0" by (simp add: new_nodes_def)
        have "\<forall>r \<in> set ?tw. d_currentNode r \<noteq> v"
        proof
          fix r assume "r \<in> set ?tw"
          from twrec[OF this] have "map_get (fst ?st1) (d_currentNode r) = Some 1"
            by (simp add: new_nodes_def)
          with v0 show "d_currentNode r \<noteq> v" by auto
        qed
        with b 2 show ?thesis by (blast intro: dfs_block_prepend)
      qed
    qed
    then show ?thesis unfolding eq em by simp
  next
    case False
    with "3.IH"(3)[OF False] stk show ?thesis by (simp add: for_emitted_Cons)
  qed
qed


lemma map_of_init_fold:
  "map_of (fold (\<lambda>node visited. map_set (node_id node) (0::int) visited) nodes V0) k
   = (if k \<in> node_ids nodes then Some 0 else map_of V0 k)"
proof (induction nodes arbitrary: V0)
  case Nil
  show ?case by (simp add: node_ids_def)
next
  case (Cons node nodes)
  show ?case
    unfolding fold_simps Cons.IH by (auto simp: node_ids_def)
qed

lemma init_visited_get:
  "map_get (init_visited nodes) k = (if k \<in> node_ids nodes then Some 0 else None)"
  by (simp add: init_visited_def map_get_def map_of_init_fold)

lemma keys_of_init_visited: "keys_of (init_visited nodes) = node_ids nodes"
  by (simp add: keys_of_def init_visited_get)

lemma adj_rel_reach_graphRel:
  assumes "(s, x) \<in> (adj_rel (buildAdjacencyList edges) (node_ids nodes))\<^sup>*"
    and "s \<in> node_ids nodes"
  shows "(s, x) \<in> (graphRel nodes edges)\<^sup>* \<and> x \<in> node_ids nodes"
  using assms(1)
proof (induction rule: rtrancl_induct)
  case base
  show ?case using assms(2) by simp
next
  case (step y z)
  from step.hyps(2) have "(y, z) \<in> edgeRel edges" "z \<in> node_ids nodes"
    using buildAdjacencyList_successors[of edges y] by (auto simp: adj_rel_def)
  with step.IH have "(y, z) \<in> graphRel nodes edges" by (simp add: graphRel_def)
  with step.IH \<open>z \<in> node_ids nodes\<close> show ?case by (auto intro: rtrancl_into_rtrancl)
qed

lemma dfsStepsDetailed_start:
  assumes "startNode_of nodes startNodeId = Some s" and "s \<noteq> []"
  shows "dfsStepsDetailed nodes edges startNodeId
         = dfs_emitted (buildAdjacencyList edges) s [] (init_visited nodes, [])"
  using assms snd_dfs[of "buildAdjacencyList edges" s "[]" "(init_visited nodes, [])"]
  by (simp add: dfsStepsDetailed_def)

definition dfs_final_visited ::
  "GraphNode list \<Rightarrow> GraphEdge list \<Rightarrow> string \<Rightarrow> (string, int) jsmap" where
  "dfs_final_visited nodes edges s =
     fst (dfsStepsDetailed_dfs (buildAdjacencyList edges) s [] (init_visited nodes, []))"

lemma dfs_final_vis_le:
  assumes "s \<in> node_ids nodes"
  shows "vis_le (init_visited nodes) (dfs_final_visited nodes edges s)"
    and "map_get (dfs_final_visited nodes edges s) s = Some 1"
  using dfs_vis_le(1)[of "(init_visited nodes, [])" s "buildAdjacencyList edges" "[]"] assms
  by (simp_all add: dfs_final_visited_def init_visited_get)

lemma dfs_new_nodes_reachable_set:
  assumes s: "s \<in> node_ids nodes"
  shows "new_nodes (init_visited nodes) (dfs_final_visited nodes edges s)
         = (graphRel nodes edges)\<^sup>* `` {s}"
proof (intro equalityI subsetI)
  let ?V0 = "init_visited nodes" and ?V' = "dfs_final_visited nodes edges s"
  fix x assume "x \<in> new_nodes ?V0 ?V'"
  with dfs_new_reachable(1)[of "(?V0, [])" s "buildAdjacencyList edges" "[]"] s
  have "(s, x) \<in> (adj_rel (buildAdjacencyList edges) (node_ids nodes))\<^sup>*"
    by (auto simp: dfs_final_visited_def init_visited_get keys_of_init_visited)
  from adj_rel_reach_graphRel[OF this s] show "x \<in> (graphRel nodes edges)\<^sup>* `` {s}" by simp
next
  let ?V0 = "init_visited nodes" and ?V' = "dfs_final_visited nodes edges s"
  note le = dfs_final_vis_le[OF s, of edges]
  fix x assume "x \<in> (graphRel nodes edges)\<^sup>* `` {s}"
  then have "(s, x) \<in> (graphRel nodes edges)\<^sup>*" by simp
  then show "x \<in> new_nodes ?V0 ?V'"
  proof (induction rule: rtrancl_induct)
    case base
    show ?case using le(2) s by (simp add: new_nodes_def init_visited_get)
  next
    case (step y z)
    from step.hyps(2) have z: "z \<in> set (get_or_empty (buildAdjacencyList edges) y)"
      "z \<in> node_ids nodes"
      using buildAdjacencyList_successors[of edges y] by (auto simp: graphRel_def)
    from dfs_new_closed(1)[of "(?V0, [])" s "buildAdjacencyList edges" "[]"] s step.IH z(1)
    have "map_get ?V' z \<noteq> Some 0"
      by (simp add: dfs_final_visited_def init_visited_get)
    moreover have z0: "map_get ?V0 z = Some 0" using z(2) by (simp add: init_visited_get)
    ultimately have "map_get ?V' z = Some 1" using vis_le_cases[OF le(1) z0] by blast
    with z0 show ?case by (simp add: new_nodes_def)
  qed
qed

lemma dfs_trace_records:
  assumes "startNode_of nodes startNodeId = Some s" and "s \<noteq> []" and "s \<in> node_ids nodes"
  shows "\<forall>r \<in> set (dfsStepsDetailed nodes edges startNodeId).
           rec_ok (init_visited nodes) (dfs_final_visited nodes edges s) [] r"
  using dfs_records_ok(1)[of "(init_visited nodes, [])" s "buildAdjacencyList edges" "[]"] assms(3)
  unfolding dfsStepsDetailed_start[OF assms(1,2)] dfs_final_visited_def
  by (simp add: init_visited_get)

lemma dfs_trace_blocks:
  assumes "startNode_of nodes startNodeId = Some s" and "s \<noteq> []" and "s \<in> node_ids nodes"
  shows "\<forall>v \<in> (graphRel nodes edges)\<^sup>* `` {s}.
           dfs_block (buildAdjacencyList edges) (dfsStepsDetailed nodes edges startNodeId) v"
  using dfs_blocks(1)[of "(init_visited nodes, [])" s "[]" "buildAdjacencyList edges"] assms(3)
  unfolding dfsStepsDetailed_start[OF assms(1,2)]
    dfs_new_nodes_reachable_set[OF assms(3), symmetric] dfs_final_visited_def
  by (simp add: init_visited_get)

subsection \<open>DFS: three records per reachable node\<close>

lemma graphRel_endpoints_in_nodes:
  "endpoints_in_nodes nodes edges \<Longrightarrow> graphRel nodes edges = edgeRel edges"
  by (auto simp: graphRel_def endpoints_in_nodes_def edgeRel_def)

lemma dfs_block_three_records:
  assumes blk: "dfs_block (buildAdjacencyList edges) T v"
    and recs: "\<forall>r \<in> set T. vis_le (init_visited nodes) (d_visited r)"
  shows "three_records (graphRel nodes edges) T v"
proof -
  let ?adj = "buildAdjacencyList edges"
  from blk obtain pre mid post p V0 V2 where
    tr: "T = pre @ [push_record v p V0, visit_record v p V0] @ mid @ [pop_record v p V2] @ post"
    and b: "v \<notin> set p" "map_get V0 v = Some 0"
      "\<forall>r \<in> set pre \<union> set mid \<union> set post. d_currentNode r \<noteq> v"
      "\<forall>r \<in> set mid. \<exists>rest. d_stack r = p @ [v] @ rest"
    and succ: "\<forall>w \<in> set (get_or_empty ?adj v).
           map_get V2 w \<noteq> Some 0 \<and>
           (map_get (map_set v 1 V0) w = Some 0 \<longrightarrow>
              (\<exists>p' V'. pop_record w p' V' \<in> set mid \<and> w \<notin> set p'))"
    unfolding dfs_block_def by blast
  let ?V1 = "map_set v 1 V0"
  have 1: "T = pre @ [\<lparr>d_currentNode = v, d_stack = p @ [v], d_visited = V0\<rparr>,
                   \<lparr>d_currentNode = v, d_stack = p @ [v], d_visited = ?V1\<rparr>] @ mid @
                  [\<lparr>d_currentNode = v, d_stack = p, d_visited = V2\<rparr>] @ post"
    using tr by (simp add: push_record_def visit_record_def pop_record_def)
  have 2: "map_get ?V1 v = Some 1" by simp
  have 3: "\<forall>r \<in> set mid. prefix (p @ [v]) (d_stack r)"
    using b(4) by (auto simp: prefix_def)
  have "pop_record v p V2 \<in> set T" using tr by simp
  with recs have le: "vis_le (init_visited nodes) V2"
    by (auto simp: pop_record_def)
  have 4: "\<forall>w. (v, w) \<in> graphRel nodes edges \<longrightarrow> map_get V2 w = Some 1"
  proof (intro allI impI)
    fix w assume "(v, w) \<in> graphRel nodes edges"
    then have w: "w \<in> set (get_or_empty ?adj v)" "w \<in> node_ids nodes"
      using buildAdjacencyList_successors[of edges v] by (auto simp: graphRel_def)
    from w(2) have "map_get (init_visited nodes) w = Some 0" by (simp add: init_visited_get)
    from vis_le_cases[OF le this] succ w(1) show "map_get V2 w = Some 1" by blast
  qed
  have 5: "\<forall>w. (v, w) \<in> graphRel nodes edges \<and> map_get ?V1 w = Some 0 \<longrightarrow>
           (\<exists>r \<in> set mid. d_currentNode r = w \<and> w \<notin> set (d_stack r))"
  proof (intro allI impI)
    fix w assume a: "(v, w) \<in> graphRel nodes edges \<and> map_get ?V1 w = Some 0"
    then have "w \<in> set (get_or_empty ?adj v)"
      using buildAdjacencyList_successors[of edges v] by (auto simp: graphRel_def)
    with succ a obtain p' V' where "pop_record w p' V' \<in> set mid" "w \<notin> set p'" by blast
    then have "pop_record w p' V' \<in> set mid \<and> d_currentNode (pop_record w p' V') = w \<and>
        w \<notin> set (d_stack (pop_record w p' V'))"
      by (simp add: pop_record_def)
    then show "\<exists>r \<in> set mid. d_currentNode r = w \<and> w \<notin> set (d_stack r)" by blast
  qed
  show ?thesis
    unfolding three_records_def using 1 b(1,2) 2 b(3) 3 4 5 by blast
qed

lemma dfs_block_visit_record:
  assumes "dfs_block adjList T v"
  shows "\<exists>r \<in> set T. d_currentNode r = v \<and> is_visit_record r"
proof -
  from assms obtain pre mid post p V0 V2 where
    "T = pre @ [push_record v p V0, visit_record v p V0] @ mid @ [pop_record v p V2] @ post"
    unfolding dfs_block_def by blast
  then have "visit_record v p V0 \<in> set T" by simp
  moreover have "d_currentNode (visit_record v p V0) = v \<and> is_visit_record (visit_record v p V0)"
    by (simp add: visit_record_def is_visit_record_def)
  ultimately show ?thesis by blast
qed

text \<open>
  C4. Let the traversal start at a listed node \<open>s\<close> (the given start id, or the first node when
  none is given; the empty id counts as absent, as in the source). The graph is the edge
  relation between listed nodes, \<open>graphRel\<close>, which is the whole edge relation when every edge
  endpoint is a node (\<open>graphRel_endpoints_in_nodes\<close>). Then every node \<open>v\<close> reachable from \<open>s\<close>
  has exactly three records in the trace, in this order: a push record whose stack ends with
  \<open>v\<close> and whose visited entry for \<open>v\<close> is 0; directly after it the visit record, with the same
  stack and entry 1; and, after records that all keep \<open>v\<close> on the stack, the pop record whose
  stack no longer holds \<open>v\<close>, in which every successor of \<open>v\<close> is visited and before which every
  successor that was unvisited at the visit record has been popped. The nodes with a visit
  record are exactly the reachable nodes, and no record names, or marks visited, a node that
  is not reachable.
\<close>

theorem dfs_three_records_per_reachable_node:
  assumes "startNode_of nodes startNodeId = Some s" and "s \<noteq> []" and "s \<in> node_ids nodes"
  shows "(\<forall>v \<in> (graphRel nodes edges)\<^sup>* `` {s}.
            three_records (graphRel nodes edges) (dfsStepsDetailed nodes edges startNodeId) v) \<and>
         {d_currentNode r |r. r \<in> set (dfsStepsDetailed nodes edges startNodeId) \<and> is_visit_record r}
           = (graphRel nodes edges)\<^sup>* `` {s} \<and>
         (\<forall>r \<in> set (dfsStepsDetailed nodes edges startNodeId).
            d_currentNode r \<in> (graphRel nodes edges)\<^sup>* `` {s} \<and>
            (\<forall>k. map_get (d_visited r) k = Some 1 \<longrightarrow> k \<in> (graphRel nodes edges)\<^sup>* `` {s}))"
proof -
  let ?T = "dfsStepsDetailed nodes edges startNodeId"
  let ?R = "(graphRel nodes edges)\<^sup>* `` {s}"
  let ?V0 = "init_visited nodes" and ?V' = "dfs_final_visited nodes edges s"
  note recs = dfs_trace_records[OF assms, of edges]
  note blocks = dfs_trace_blocks[OF assms, of edges]
  note new = dfs_new_nodes_reachable_set[OF assms(3), of edges]
  have le0: "\<forall>r \<in> set ?T. vis_le ?V0 (d_visited r)"
    using recs by (simp add: rec_ok_def)
  have cur: "d_currentNode r \<in> ?R" if "r \<in> set ?T" for r
    using recs that unfolding new[symmetric] by (simp add: rec_ok_def)
  have ones: "k \<in> ?R" if "r \<in> set ?T" "map_get (d_visited r) k = Some 1" for r k
  proof -
    from recs that(1) have a: "vis_le ?V0 (d_visited r)" and b: "vis_le (d_visited r) ?V'"
      by (simp_all add: rec_ok_def)
    from b that(2) have "map_get ?V' k = Some 1" by (rule vis_le_one)
    moreover have "map_get ?V0 k = Some 0"
    proof (cases "k \<in> node_ids nodes")
      case True
      then show ?thesis by (simp add: init_visited_get)
    next
      case False
      then have "map_get ?V0 k = None" by (simp add: init_visited_get)
      with vis_le_None[OF a, of k] that(2) show ?thesis by simp
    qed
    ultimately show ?thesis unfolding new[symmetric] by (simp add: new_nodes_def)
  qed
  have A: "\<forall>v \<in> ?R. three_records (graphRel nodes edges) ?T v"
    using blocks le0 by (blast intro: dfs_block_three_records)
  have B: "{d_currentNode r |r. r \<in> set ?T \<and> is_visit_record r} = ?R"
  proof (intro equalityI subsetI)
    fix x assume "x \<in> {d_currentNode r |r. r \<in> set ?T \<and> is_visit_record r}"
    then show "x \<in> ?R" using cur by blast
  next
    fix x assume "x \<in> ?R"
    with blocks have "dfs_block (buildAdjacencyList edges) ?T x" by blast
    from dfs_block_visit_record[OF this]
    show "x \<in> {d_currentNode r |r. r \<in> set ?T \<and> is_visit_record r}" by blast
  qed
  have C: "\<forall>r \<in> set ?T. d_currentNode r \<in> ?R \<and>
            (\<forall>k. map_get (d_visited r) k = Some 1 \<longrightarrow> k \<in> ?R)"
    using cur ones by blast
  from A B C show ?thesis by blast
qed


theorem dfs_three_records_per_reachable_node_witness:
  "startNode_of sampleNodes None = Some ''A'' \<and> ''A'' \<in> node_ids sampleNodes \<and>
   ''D'' \<in> (graphRel sampleNodes sampleEdges)\<^sup>* `` {''A''} \<and>
   three_records (graphRel sampleNodes sampleEdges)
     (dfsStepsDetailed sampleNodes sampleEdges None) ''D''"
proof -
  have s: "startNode_of sampleNodes None = Some ''A''"
    by (simp add: startNode_of_def js_truthy_def sampleNodes_def)
  have ne: "''A'' \<noteq> []" by simp
  have a: "''A'' \<in> node_ids sampleNodes"
    by (simp add: node_ids_def sampleNodes_def)
  have ab: "(''A'', ''B'') \<in> graphRel sampleNodes sampleEdges"
    by (simp add: graphRel_def edgeRel_def node_ids_def sampleNodes_def sampleEdges_def)
  have bd: "(''B'', ''D'') \<in> graphRel sampleNodes sampleEdges"
    by (simp add: graphRel_def edgeRel_def node_ids_def sampleNodes_def sampleEdges_def)
  have "(''A'', ''D'') \<in> (graphRel sampleNodes sampleEdges)\<^sup>*"
    by (rule converse_rtrancl_into_rtrancl[OF ab r_into_rtrancl[OF bd]])
  then have d: "''D'' \<in> (graphRel sampleNodes sampleEdges)\<^sup>* `` {''A''}" by simp
  from dfs_three_records_per_reachable_node[OF s ne a, of sampleEdges] d
  have "three_records (graphRel sampleNodes sampleEdges)
     (dfsStepsDetailed sampleNodes sampleEdges None) ''D''" by blast
  with s a d show ?thesis by blast
qed

text \<open>
  The conditions on the start node and the restriction of reachability to edges between listed
  nodes cannot be dropped. Started at an id that is not in the node list, the traversal emits
  three records for it, but the push record has no visited entry for it (the visited map is
  initialised from the node list only). A listed node that is joined to the start only through
  an unlisted id is reachable in the whole edge relation, yet the traversal never enters the
  unlisted id (its visited entry is undefined, not 0) and the node has no record at all. When
  the default start id, the first node's id, is the empty string, the source treats it as
  absent and the trace is empty.
\<close>

lemma three_records_push:
  assumes "three_records G T v"
  shows "list_ex (\<lambda>r. d_currentNode r = v \<and> map_get (d_visited r) v = Some 0) T"
proof -
  from assms obtain pre mid post p V0 V1 V2 where
    T: "T = pre @ [\<lparr>d_currentNode = v, d_stack = p @ [v], d_visited = V0\<rparr>,
                   \<lparr>d_currentNode = v, d_stack = p @ [v], d_visited = V1\<rparr>] @ mid @
                  [\<lparr>d_currentNode = v, d_stack = p, d_visited = V2\<rparr>] @ post"
    and z: "map_get V0 v = Some 0"
    unfolding three_records_def by blast
  let ?r = "\<lparr>d_currentNode = v, d_stack = p @ [v], d_visited = V0\<rparr>"
  have "?r \<in> set T" by (simp add: T)
  moreover have "d_currentNode ?r = v \<and> map_get (d_visited ?r) v = Some 0" using z by simp
  ultimately show ?thesis unfolding list_ex_iff by blast
qed

lemma unlisted_start_trace:
  "dfsStepsDetailed unlisted_start_nodes [] (Some ''Z'') =
     [\<lparr>d_currentNode = ''Z'', d_stack = [''Z''], d_visited = [(''A'', 0)]\<rparr>,
      \<lparr>d_currentNode = ''Z'', d_stack = [''Z''], d_visited = [(''A'', 0), (''Z'', 1)]\<rparr>,
      \<lparr>d_currentNode = ''Z'', d_stack = [], d_visited = [(''A'', 0), (''Z'', 1)]\<rparr>]"
  by code_simp

lemma unlisted_start_no_push:
  "\<not> list_ex (\<lambda>r. d_currentNode r = ''Z'' \<and> map_get (d_visited r) ''Z'' = Some 0)
       (dfsStepsDetailed unlisted_start_nodes [] (Some ''Z''))"
  unfolding unlisted_start_trace by (simp add: map_get_def)

lemma dangling_path_trace:
  "dfsStepsDetailed dangling_path_nodes dangling_path_edges None =
     [\<lparr>d_currentNode = ''A'', d_stack = [''A''], d_visited = [(''A'', 0), (''B'', 0)]\<rparr>,
      \<lparr>d_currentNode = ''A'', d_stack = [''A''], d_visited = [(''A'', 1), (''B'', 0)]\<rparr>,
      \<lparr>d_currentNode = ''A'', d_stack = [], d_visited = [(''A'', 1), (''B'', 0)]\<rparr>]"
  by code_simp

lemma dangling_path_no_push:
  "\<not> list_ex (\<lambda>r. d_currentNode r = ''B'' \<and> map_get (d_visited r) ''B'' = Some 0)
       (dfsStepsDetailed dangling_path_nodes dangling_path_edges None)"
  unfolding dangling_path_trace by simp

lemma dangling_path_reach:
  "''B'' \<in> (edgeRel dangling_path_edges)\<^sup>* `` {''A''}"
proof -
  have ax: "(''A'', ''X'') \<in> edgeRel dangling_path_edges"
    by (simp add: edgeRel_def dangling_path_edges_def)
  have xb: "(''X'', ''B'') \<in> edgeRel dangling_path_edges"
    by (simp add: edgeRel_def dangling_path_edges_def)
  have "(''A'', ''B'') \<in> (edgeRel dangling_path_edges)\<^sup>*"
    by (rule converse_rtrancl_into_rtrancl[OF ax r_into_rtrancl[OF xb]])
  then show ?thesis by simp
qed

lemma empty_start_id_no_records:
  "startNode_of empty_id_nodes None = Some [] \<and> [] \<in> node_ids empty_id_nodes \<and>
   dfsStepsDetailed empty_id_nodes [] None = []"
  by (simp add: dfsStepsDetailed_def startNode_of_def js_truthy_def empty_id_nodes_def
      node_ids_def)

theorem dfs_three_records_counterexample:
  "startNode_of unlisted_start_nodes (Some ''Z'') = Some ''Z'' \<and>
   ''Z'' \<notin> node_ids unlisted_start_nodes \<and>
   dfsStepsDetailed unlisted_start_nodes [] (Some ''Z'') =
     [\<lparr>d_currentNode = ''Z'', d_stack = [''Z''], d_visited = [(''A'', 0)]\<rparr>,
      \<lparr>d_currentNode = ''Z'', d_stack = [''Z''], d_visited = [(''A'', 0), (''Z'', 1)]\<rparr>,
      \<lparr>d_currentNode = ''Z'', d_stack = [], d_visited = [(''A'', 0), (''Z'', 1)]\<rparr>] \<and>
   ''Z'' \<in> (edgeRel [])\<^sup>* `` {''Z''} \<and>
   \<not> three_records (edgeRel []) (dfsStepsDetailed unlisted_start_nodes [] (Some ''Z'')) ''Z'' \<and>
   startNode_of dangling_path_nodes None = Some ''A'' \<and>
   ''B'' \<in> (edgeRel dangling_path_edges)\<^sup>* `` {''A''} \<and>
   \<not> three_records (edgeRel dangling_path_edges)
        (dfsStepsDetailed dangling_path_nodes dangling_path_edges None) ''B'' \<and>
   \<not> list_ex (\<lambda>r. d_currentNode r = ''B'')
        (dfsStepsDetailed dangling_path_nodes dangling_path_edges None)"
proof -
  have 0: "startNode_of unlisted_start_nodes (Some ''Z'') = Some ''Z''"
    by (simp add: startNode_of_def js_truthy_def)
  have 1: "''Z'' \<notin> node_ids unlisted_start_nodes"
    by (simp add: node_ids_def unlisted_start_nodes_def)
  have 2: "''Z'' \<in> (edgeRel [])\<^sup>* `` {''Z''}" by simp
  have 3: "\<not> three_records (edgeRel [])
             (dfsStepsDetailed unlisted_start_nodes [] (Some ''Z'')) ''Z''"
    using three_records_push unlisted_start_no_push by blast
  have 4: "startNode_of dangling_path_nodes None = Some ''A''"
    by (simp add: startNode_of_def js_truthy_def dangling_path_nodes_def)
  have 5: "\<not> three_records (edgeRel dangling_path_edges)
        (dfsStepsDetailed dangling_path_nodes dangling_path_edges None) ''B''"
    using three_records_push dangling_path_no_push by blast
  have 6: "\<not> list_ex (\<lambda>r. d_currentNode r = ''B'')
        (dfsStepsDetailed dangling_path_nodes dangling_path_edges None)"
    unfolding dangling_path_trace by simp
  show ?thesis
    by (intro conjI 0 1 unlisted_start_trace 2 3 4 dangling_path_reach 5 6)
qed

subsection \<open>BFS: nodes are visited in order of distance\<close>

lemma hop_distance_path:
  assumes "(s, x) \<in> E\<^sup>*"
  shows "(s, x) \<in> E ^^ hop_distance E s x"
proof -
  from assms obtain n where "(s, x) \<in> E ^^ n" by (auto dest: rtrancl_imp_relpow)
  then show ?thesis unfolding hop_distance_def by (rule LeastI)
qed

lemma hop_distance_le: "(s, x) \<in> E ^^ n \<Longrightarrow> hop_distance E s x \<le> n"
  unfolding hop_distance_def by (rule Least_le)

lemma hop_distance_self [simp]: "hop_distance E s s = 0"
  using hop_distance_le[where s = s and x = s and E = E and n = 0] by simp

lemma hop_distance_zero:
  assumes "(s, x) \<in> E\<^sup>*" and "hop_distance E s x = 0"
  shows "x = s"
  using hop_distance_path[OF assms(1)] assms(2) by simp

lemma hop_distance_edge:
  assumes "(s, u) \<in> E\<^sup>*" and "(u, w) \<in> E"
  shows "hop_distance E s w \<le> hop_distance E s u + 1"
proof -
  from hop_distance_path[OF assms(1)] assms(2)
  have "(s, w) \<in> E ^^ Suc (hop_distance E s u)" by auto
  from hop_distance_le[OF this] show ?thesis by simp
qed

lemma hop_distance_pred:
  assumes "(s, x) \<in> E\<^sup>*" and "hop_distance E s x = Suc k"
  shows "\<exists>y. (s, y) \<in> E\<^sup>* \<and> (y, x) \<in> E \<and> hop_distance E s y = k"
proof -
  from hop_distance_path[OF assms(1)] assms(2) have "(s, x) \<in> E ^^ Suc k" by simp
  then obtain y where y: "(s, y) \<in> E ^^ k" "(y, x) \<in> E" by auto
  from y(1) have r: "(s, y) \<in> E\<^sup>*" by (rule relpow_imp_rtrancl)
  from hop_distance_le[OF y(1)] have "hop_distance E s y \<le> k" .
  moreover from hop_distance_edge[OF r y(2)] assms(2) have "k \<le> hop_distance E s y" by simp
  ultimately show ?thesis using r y(2) by auto
qed

lemma visitOrder_snoc:
  "visitOrder (steps @ [r]) =
     visitOrder steps @ filter (\<lambda>k. k \<notin> set (visitOrder steps)) (visited_ids (b_visited r))"
  by (simp add: visitOrder_def)

lemma keys_map_set: "fst ` set (map_set k v m) = insert k (fst ` set m)"
  by (simp add: dom_map_of_conv_image_fst[symmetric])

lemma distinct_keys_map_set: "distinct (map fst m) \<Longrightarrow> distinct (map fst (map_set k v m))"
proof (induction m)
  case Nil
  show ?case by simp
next
  case (Cons a m)
  obtain k' v' where a: "a = (k', v')" by (cases a)
  show ?case
  proof (cases "k' = k")
    case True
    with Cons.prems a show ?thesis by simp
  next
    case False
    from Cons.prems a have "k' \<notin> fst ` set m" "distinct (map fst m)" by simp_all
    with False Cons.IH have "k' \<notin> fst ` set (map_set k v m)" "distinct (map fst (map_set k v m))"
      by (simp_all add: keys_map_set)
    with False a show ?thesis by simp
  qed
qed

lemma distinct_singleton_set:
  assumes "distinct xs" and "set xs = {w}"
  shows "xs = [w]"
proof (cases xs)
  case Nil
  with assms(2) show ?thesis by simp
next
  case (Cons x ys)
  with assms have "x = w" "set ys \<subseteq> {w}" "x \<notin> set ys" by auto
  then have "ys = []" by (cases ys) auto
  with \<open>x = w\<close> Cons show ?thesis by simp
qed

lemma set_visited_ids:
  "distinct (map fst V) \<Longrightarrow> set (visited_ids V) = {k. map_get V k = Some 1}"
  by (auto simp: visited_ids_def map_get_def image_iff dest: map_of_SomeD)

lemma distinct_visited_ids: "distinct (map fst V) \<Longrightarrow> distinct (visited_ids V)"
  unfolding visited_ids_def by (simp add: distinct_map_filter)

lemma filter_new_visited:
  assumes d: "distinct (map fst V)" and z: "map_get V w = Some 0"
    and acc: "set acc = {k. map_get V k = Some 1}"
  shows "filter (\<lambda>k. k \<notin> set acc) (visited_ids (map_set w 1 V)) = [w]"
proof -
  let ?V' = "map_set w 1 V"
  have d': "distinct (visited_ids ?V')"
    using d by (intro distinct_visited_ids distinct_keys_map_set)
  have s': "set (visited_ids ?V') = insert w {k. map_get V k = Some 1}"
    using set_visited_ids[OF distinct_keys_map_set[OF d], of w 1] by auto
  have "distinct (filter (\<lambda>k. k \<notin> set acc) (visited_ids ?V'))" using d' by simp
  moreover have "set (filter (\<lambda>k. k \<notin> set acc) (visited_ids ?V')) = {w}"
    using s' acc z by auto
  ultimately show ?thesis by (rule distinct_singleton_set)
qed


definition ones :: "(string, int) jsmap \<Rightarrow> string set" where
  "ones V = {k. map_get V k = Some 1}"

definition bfs_common ::
  "(string \<times> string) set \<Rightarrow> string \<Rightarrow> (string, int) jsmap \<Rightarrow> string list \<Rightarrow> bool" where
  "bfs_common E s V L \<longleftrightarrow>
     distinct (map fst V) \<and> set L = ones V \<and> distinct L \<and>
     (\<forall>x \<in> set L. (s, x) \<in> E\<^sup>*) \<and>
     sorted (map (hop_distance E s) L) \<and>
     (\<forall>u w. (u, w) \<in> E \<longrightarrow> map_get V w \<noteq> None) \<and>
     (\<forall>k v. map_get V k = Some v \<longrightarrow> v = 0 \<or> v = 1)"

definition bfs_inner_inv ::
  "(string \<times> string) set \<Rightarrow> string \<Rightarrow> string \<Rightarrow> string list \<Rightarrow> bfs_state \<Rightarrow> bool" where
  "bfs_inner_inv E s u P st \<longleftrightarrow>
     (case st of (V, Q, steps) \<Rightarrow>
        visitOrder steps = P @ [u] @ Q \<and> bfs_common E s V (P @ [u] @ Q) \<and>
        (\<forall>p \<in> set P. E `` {p} \<subseteq> ones V) \<and>
        (\<forall>x \<in> set Q. hop_distance E s x \<le> hop_distance E s u + 1) \<and>
        (\<forall>x. (s, x) \<in> E\<^sup>* \<and> hop_distance E s x \<le> hop_distance E s u
             \<longrightarrow> x \<in> set (P @ [u] @ Q)))"

definition bfs_outer_inv ::
  "(string \<times> string) set \<Rightarrow> string \<Rightarrow> string list \<Rightarrow> bfs_state \<Rightarrow> bool" where
  "bfs_outer_inv E s P st \<longleftrightarrow>
     (case st of (V, Q, steps) \<Rightarrow>
        visitOrder steps = P @ Q \<and> bfs_common E s V (P @ Q) \<and>
        (\<forall>p \<in> set P. E `` {p} \<subseteq> ones V) \<and>
        (Q \<noteq> [] \<longrightarrow>
           (\<forall>x \<in> set Q. hop_distance E s x \<le> hop_distance E s (hd Q) + 1) \<and>
           (\<forall>x. (s, x) \<in> E\<^sup>* \<and> hop_distance E s x \<le> hop_distance E s (hd Q)
                \<longrightarrow> x \<in> set (P @ Q))))"

lemma ones_map_set_1 [simp]: "ones (map_set w 1 V) = insert w (ones V)"
  by (auto simp: ones_def)

lemma bfs_enqueue_inv:
  assumes inv: "bfs_inner_inv E s u P (V, Q, steps)"
    and e: "(u, w) \<in> E" and z: "map_get V w = Some 0"
  shows "bfs_inner_inv E s u P
           (map_set w 1 V, Q @ [w],
            steps @ [\<lparr>b_currentNode = u, b_queue = Q @ [w], b_visited = map_set w 1 V\<rparr>])"
proof -
  let ?d = "hop_distance E s"
  let ?L = "P @ [u] @ Q"
  from inv have vo: "visitOrder steps = ?L" and com: "bfs_common E s V ?L"
    and proc: "\<forall>p \<in> set P. E `` {p} \<subseteq> ones V"
    and qb: "\<forall>x \<in> set Q. ?d x \<le> ?d u + 1"
    and near: "\<forall>x. (s, x) \<in> E\<^sup>* \<and> ?d x \<le> ?d u \<longrightarrow> x \<in> set ?L"
    by (simp_all add: bfs_inner_inv_def)
  from com have dk: "distinct (map fst V)" and sl: "set ?L = ones V" and dl: "distinct ?L"
    and reach: "\<forall>x \<in> set ?L. (s, x) \<in> E\<^sup>*" and srt: "sorted (map ?d ?L)"
    and tgt: "\<forall>u w. (u, w) \<in> E \<longrightarrow> map_get V w \<noteq> None"
    and bin: "\<forall>k v. map_get V k = Some v \<longrightarrow> v = 0 \<or> v = 1"
    unfolding bfs_common_def by blast+
  have wL: "w \<notin> set ?L" unfolding sl using z by (simp add: ones_def)
  have ru: "(s, u) \<in> E\<^sup>*" using reach by simp
  from ru e have rw: "(s, w) \<in> E\<^sup>*" by (rule rtrancl_into_rtrancl)
  have le: "?d w \<le> ?d u + 1" using ru e by (rule hop_distance_edge)
  have gt: "?d u < ?d w"
  proof (rule ccontr)
    assume "\<not> ?d u < ?d w"
    with rw near have "w \<in> set ?L" by auto
    with wL show False by contradiction
  qed
  have pu: "\<forall>x \<in> set (P @ [u]). ?d x \<le> ?d u"
    using srt by (auto simp: sorted_append)
  have all_le: "\<forall>x \<in> set ?L. ?d x \<le> ?d w"
  proof
    fix x assume "x \<in> set ?L"
    then consider "x \<in> set (P @ [u])" | "x \<in> set Q" by auto
    then show "?d x \<le> ?d w"
    proof cases
      case 1
      with pu have "?d x \<le> ?d u" by blast
      with gt show ?thesis by simp
    next
      case 2
      with qb have "?d x \<le> ?d u + 1" by blast
      with gt show ?thesis by simp
    qed
  qed
  let ?V' = "map_set w 1 V"
  have vo': "visitOrder (steps @ [\<lparr>b_currentNode = u, b_queue = Q @ [w], b_visited = ?V'\<rparr>])
             = P @ [u] @ (Q @ [w])"
    using filter_new_visited[OF dk z, of "visitOrder steps"] sl vo
    by (simp add: visitOrder_snoc ones_def)
  have srt': "sorted (map ?d (?L @ [w]))"
    using srt all_le by (simp add: sorted_append)
  have com': "bfs_common E s ?V' (P @ [u] @ (Q @ [w]))"
    unfolding bfs_common_def
  proof (intro conjI)
    show "distinct (map fst ?V')" using dk by (rule distinct_keys_map_set)
    show "set (P @ [u] @ Q @ [w]) = ones ?V'" using sl by auto
    show "distinct (P @ [u] @ Q @ [w])" using dl wL by auto
    show "\<forall>x \<in> set (P @ [u] @ Q @ [w]). (s, x) \<in> E\<^sup>*" using reach rw by auto
    show "sorted (map ?d (P @ [u] @ Q @ [w]))" using srt' by simp
    show "\<forall>u w. (u, w) \<in> E \<longrightarrow> map_get ?V' w \<noteq> None" using tgt by simp
    show "\<forall>k v. map_get ?V' k = Some v \<longrightarrow> v = 0 \<or> v = 1" using bin by simp
  qed
  have proc': "\<forall>p \<in> set P. E `` {p} \<subseteq> ones ?V'" using proc by auto
  have qb': "\<forall>x \<in> set (Q @ [w]). ?d x \<le> ?d u + 1" using qb le by auto
  have near': "\<forall>x. (s, x) \<in> E\<^sup>* \<and> ?d x \<le> ?d u \<longrightarrow> x \<in> set (P @ [u] @ (Q @ [w]))"
    using near by auto
  show ?thesis
    unfolding bfs_inner_inv_def prod.case by (intro conjI vo' com' proc' qb' near')
qed


lemma bfs_for_ones_mono:
  "map_get V k = Some 1 \<Longrightarrow>
   map_get (fst (bfsStepsDetailed_for u ws (V, Q, steps))) k = Some 1"
  by (induction ws arbitrary: V Q steps) auto

lemma bfs_for_inv:
  "bfs_inner_inv E s u P st \<Longrightarrow> set ws \<subseteq> E `` {u} \<Longrightarrow>
   bfs_inner_inv E s u P (bfsStepsDetailed_for u ws st) \<and>
   (\<forall>w \<in> set ws. map_get (fst (bfsStepsDetailed_for u ws st)) w = Some 1)"
proof (induction ws arbitrary: st)
  case Nil
  then show ?case by simp
next
  case (Cons w ws)
  obtain V Q steps where st: "st = (V, Q, steps)" by (cases st)
  from Cons.prems(2) have e: "(u, w) \<in> E" and sub: "set ws \<subseteq> E `` {u}" by auto
  show ?case
  proof (cases "map_get V w = Some 0")
    case True
    let ?st1 = "(map_set w 1 V, Q @ [w],
            steps @ [\<lparr>b_currentNode = u, b_queue = Q @ [w], b_visited = map_set w 1 V\<rparr>])"
    have eq: "bfsStepsDetailed_for u (w # ws) st = bfsStepsDetailed_for u ws ?st1"
      using True by (simp add: st)
    have "bfs_inner_inv E s u P ?st1"
      using Cons.prems(1) e True unfolding st by (rule bfs_enqueue_inv)
    from Cons.IH[OF this sub]
    have a: "bfs_inner_inv E s u P (bfsStepsDetailed_for u ws ?st1)"
      and b: "\<forall>x \<in> set ws. map_get (fst (bfsStepsDetailed_for u ws ?st1)) x = Some 1"
      by simp_all
    have "map_get (fst (bfsStepsDetailed_for u ws ?st1)) w = Some 1"
      by (rule bfs_for_ones_mono) simp
    with a b show ?thesis unfolding eq by simp
  next
    case False
    have eq: "bfsStepsDetailed_for u (w # ws) st = bfsStepsDetailed_for u ws st"
      using False by (simp add: st)
    from Cons.prems(1) have "bfs_common E s V (P @ [u] @ Q)"
      by (simp add: bfs_inner_inv_def st)
    then have tgt: "\<forall>u w. (u, w) \<in> E \<longrightarrow> map_get V w \<noteq> None"
      and bin: "\<forall>k v. map_get V k = Some v \<longrightarrow> v = 0 \<or> v = 1"
      unfolding bfs_common_def by blast+
    from tgt e obtain v where v: "map_get V w = Some v" by blast
    with bin False have "map_get V w = Some 1" by auto
    then have "map_get (fst (bfsStepsDetailed_for u ws st)) w = Some 1"
      unfolding st by (rule bfs_for_ones_mono)
    with Cons.IH[OF Cons.prems(1) sub] show ?thesis unfolding eq by simp
  qed
qed

lemma bfs_dequeue_inv:
  assumes "bfs_outer_inv E s P (V, u # Q, steps)"
  shows "bfs_inner_inv E s u P
           (V, Q, steps @ [\<lparr>b_currentNode = u, b_queue = Q, b_visited = V\<rparr>])"
proof -
  let ?L = "P @ [u] @ Q"
  from assms have vo: "visitOrder steps = ?L" and com: "bfs_common E s V ?L"
    and proc: "\<forall>p \<in> set P. E `` {p} \<subseteq> ones V"
    and qb: "\<forall>x \<in> set (u # Q). hop_distance E s x \<le> hop_distance E s u + 1"
    by (simp_all add: bfs_outer_inv_def)
  from assms have near: "\<forall>x. (s, x) \<in> E\<^sup>* \<and> hop_distance E s x \<le> hop_distance E s u
                 \<longrightarrow> x \<in> set (P @ u # Q)"
    by (auto simp: bfs_outer_inv_def)
  from com have dk: "distinct (map fst V)" and sl: "set ?L = ones V"
    unfolding bfs_common_def by blast+
  have "set (visited_ids V) = set (visitOrder steps)"
    using set_visited_ids[OF dk] sl vo by (simp add: ones_def)
  then have "filter (\<lambda>k. k \<notin> set (visitOrder steps)) (visited_ids V) = []"
    by (simp add: filter_empty_conv)
  then have vo': "visitOrder (steps @ [\<lparr>b_currentNode = u, b_queue = Q, b_visited = V\<rparr>]) = ?L"
    using vo by (simp add: visitOrder_snoc)
  have qb': "\<forall>x \<in> set Q. hop_distance E s x \<le> hop_distance E s u + 1" using qb by simp
  have near': "\<forall>x. (s, x) \<in> E\<^sup>* \<and> hop_distance E s x \<le> hop_distance E s u
                 \<longrightarrow> x \<in> set ?L" using near by simp
  show ?thesis
    unfolding bfs_inner_inv_def prod.case by (intro conjI vo' com proc qb' near')
qed

lemma bfs_finish_inv:
  assumes inv: "bfs_inner_inv E s u P (V, Q, steps)" and succ: "E `` {u} \<subseteq> ones V"
  shows "bfs_outer_inv E s (P @ [u]) (V, Q, steps)"
proof -
  let ?d = "hop_distance E s"
  let ?L = "P @ [u] @ Q"
  from inv have vo: "visitOrder steps = ?L" and com: "bfs_common E s V ?L"
    and proc: "\<forall>p \<in> set P. E `` {p} \<subseteq> ones V"
    and qb: "\<forall>x \<in> set Q. ?d x \<le> ?d u + 1"
    and near: "\<forall>x. (s, x) \<in> E\<^sup>* \<and> ?d x \<le> ?d u \<longrightarrow> x \<in> set ?L"
    by (simp_all add: bfs_inner_inv_def)
  from com have sl: "set ?L = ones V" and srt: "sorted (map ?d ?L)"
    unfolding bfs_common_def by blast+
  have vo': "visitOrder steps = (P @ [u]) @ Q" using vo by simp
  have com': "bfs_common E s V ((P @ [u]) @ Q)" using com by simp
  have proc': "\<forall>p \<in> set (P @ [u]). E `` {p} \<subseteq> ones V" using proc succ by auto
  have uq: "\<forall>x \<in> set Q. ?d u \<le> ?d x" using srt by (auto simp: sorted_append)
  have last: "Q \<noteq> [] \<longrightarrow>
           (\<forall>x \<in> set Q. ?d x \<le> ?d (hd Q) + 1) \<and>
           (\<forall>x. (s, x) \<in> E\<^sup>* \<and> ?d x \<le> ?d (hd Q) \<longrightarrow> x \<in> set ((P @ [u]) @ Q))"
  proof (intro impI conjI ballI allI)
    assume ne: "Q \<noteq> []"
    then obtain u' Q' where Q: "Q = u' # Q'" by (cases Q) auto
    have uu': "?d u \<le> ?d u'" using uq Q by simp
    have u'le: "?d u' \<le> ?d u + 1" using qb Q by simp
    have hq: "\<forall>y \<in> set Q. ?d u' \<le> ?d y" using srt Q by (auto simp: sorted_append)
    {
      fix x assume "x \<in> set Q"
      with qb have "?d x \<le> ?d u + 1" by blast
      with uu' show "?d x \<le> ?d (hd Q) + 1" by (simp add: Q)
    }
    {
      fix x assume x: "(s, x) \<in> E\<^sup>* \<and> ?d x \<le> ?d (hd Q)"
      show "x \<in> set ((P @ [u]) @ Q)"
      proof (cases "?d x \<le> ?d u")
        case True
        with x near show ?thesis by simp
      next
        case False
        with x u'le have dx: "?d x = Suc (?d u)" and du': "?d u' = Suc (?d u)"
          by (simp_all add: Q)
        from hop_distance_pred[OF conjunct1[OF x] dx] obtain y where
          y: "(s, y) \<in> E\<^sup>*" "(y, x) \<in> E" "?d y = ?d u" by blast
        with near have yL: "y \<in> set ?L" by simp
        have "y \<notin> set Q"
        proof
          assume "y \<in> set Q"
          with hq have "?d u' \<le> ?d y" by blast
          with du' y(3) show False by simp
        qed
        with yL have "y \<in> set (P @ [u])" by auto
        with proc' have "E `` {y} \<subseteq> ones V" by blast
        with y(2) have "x \<in> ones V" by blast
        with sl show ?thesis by simp
      qed
    }
  qed
  show ?thesis
    unfolding bfs_outer_inv_def prod.case by (intro conjI vo' com' proc' last)
qed


lemma bfs_while_sorted:
  "(\<And>u. set (get_or_empty adjList u) = E `` {u}) \<Longrightarrow> bfs_outer_inv E s P st \<Longrightarrow>
   sorted (map (hop_distance E s) (visitOrder (bfsStepsDetailed_while adjList st))) \<and>
   set (visitOrder (bfsStepsDetailed_while adjList st)) \<subseteq> E\<^sup>* `` {s}"
proof (induction adjList st arbitrary: P rule: bfsStepsDetailed_while.induct)
  case (1 adjList visited queue steps)
  show ?case
  proof (cases queue)
    case Nil
    from "1.prems"(2) Nil have "visitOrder steps = P" "bfs_common E s visited P"
      by (simp_all add: bfs_outer_inv_def)
    then have "sorted (map (hop_distance E s) (visitOrder steps))"
      "\<forall>x \<in> set (visitOrder steps). (s, x) \<in> E\<^sup>*"
      unfolding bfs_common_def by blast+
    then show ?thesis using Nil by (auto simp: bfsStepsDetailed_while.simps)
  next
    case (Cons u Q)
    let ?st0 = "(visited, Q, steps @ [\<lparr>b_currentNode = u, b_queue = Q, b_visited = visited\<rparr>])"
    let ?st1 = "bfsStepsDetailed_for u (get_or_empty adjList u) ?st0"
    have "bfs_inner_inv E s u P ?st0"
      using "1.prems"(2) unfolding Cons by (rule bfs_dequeue_inv)
    from bfs_for_inv[OF this, of "get_or_empty adjList u"] "1.prems"(1)
    have inv1: "bfs_inner_inv E s u P ?st1"
      and all: "\<forall>w \<in> E `` {u}. map_get (fst ?st1) w = Some 1" by simp_all
    obtain V1 Q1 steps1 where st1: "?st1 = (V1, Q1, steps1)" by (cases ?st1)
    from all have "E `` {u} \<subseteq> ones V1" by (auto simp: st1 ones_def)
    with inv1 have "bfs_outer_inv E s (P @ [u]) ?st1"
      unfolding st1 by (rule bfs_finish_inv)
    from "1.IH"[OF Cons "1.prems"(1) this] Cons show ?thesis
      by (simp add: bfsStepsDetailed_while.simps)
  qed
qed

lemma distinct_keys_init_fold:
  "distinct (map fst V0) \<Longrightarrow>
   distinct (map fst (fold (\<lambda>node visited. map_set (node_id node) (0::int) visited) nodes V0))"
  by (induction nodes arbitrary: V0) (simp_all add: distinct_keys_map_set)

lemma distinct_keys_init_visited: "distinct (map fst (init_visited nodes))"
  unfolding init_visited_def by (rule distinct_keys_init_fold) simp

lemma ones_init_visited: "ones (init_visited nodes) = {}"
  by (auto simp: ones_def init_visited_get)

lemma bfs_initial_inv:
  assumes "endpoints_in_nodes nodes edges"
  shows "bfs_outer_inv (edgeRel edges) s []
           (map_set s 1 (init_visited nodes), [s],
            [\<lparr>b_currentNode = s, b_queue = [s], b_visited = map_set s 1 (init_visited nodes)\<rparr>])"
proof -
  let ?E = "edgeRel edges"
  let ?V = "map_set s 1 (init_visited nodes)"
  have dk: "distinct (map fst ?V)"
    by (intro distinct_keys_map_set distinct_keys_init_visited)
  have on: "ones ?V = {s}" by (simp add: ones_init_visited)
  have "distinct (visited_ids ?V)" using dk by (rule distinct_visited_ids)
  moreover have "set (visited_ids ?V) = {s}"
    using set_visited_ids[OF dk] on by (simp add: ones_def)
  ultimately have "visited_ids ?V = [s]" by (rule distinct_singleton_set)
  then have vo: "visitOrder [\<lparr>b_currentNode = s, b_queue = [s], b_visited = ?V\<rparr>] = [] @ [s]"
    by (simp add: visitOrder_def)
  have tgt: "\<forall>u w. (u, w) \<in> ?E \<longrightarrow> map_get ?V w \<noteq> None"
  proof (intro allI impI)
    fix u w assume "(u, w) \<in> ?E"
    with assms have "w \<in> node_ids nodes"
      by (auto simp: endpoints_in_nodes_def edgeRel_def)
    then show "map_get ?V w \<noteq> None" by (simp add: init_visited_get)
  qed
  have bin: "\<forall>k v. map_get ?V k = Some v \<longrightarrow> v = 0 \<or> v = 1"
    by (auto simp: init_visited_get split: if_splits)
  have com: "bfs_common ?E s ?V ([] @ [s])"
    unfolding bfs_common_def using dk on tgt bin by simp
  have proc: "\<forall>p \<in> set []. ?E `` {p} \<subseteq> ones ?V" by simp
  have last: "[s] \<noteq> [] \<longrightarrow>
           (\<forall>x \<in> set [s]. hop_distance ?E s x \<le> hop_distance ?E s (hd [s]) + 1) \<and>
           (\<forall>x. (s, x) \<in> ?E\<^sup>* \<and> hop_distance ?E s x \<le> hop_distance ?E s (hd [s])
                \<longrightarrow> x \<in> set ([] @ [s]))"
    by (auto dest: hop_distance_zero)
  show ?thesis
    unfolding bfs_outer_inv_def prod.case by (intro conjI vo com proc last)
qed

lemma sample_bfs_visit_order:
  "visitOrder (bfsStepsDetailed sampleNodes sampleEdges None) = [''A'', ''B'', ''C'', ''D'', ''E'']"
  by code_simp

text \<open>
  C5. On a graph whose edge endpoints are node ids, list the node ids in the order in which
  they first show up with visited entry 1 along the BFS trace (\<open>visitOrder\<close>; the start node
  comes first, being marked before the first record). Along that list the distance from the
  start node never decreases, and every listed node is reachable from the start. On the sample
  graph the list is A, B, C, D, E.
\<close>

theorem bfs_visit_order_by_distance:
  "(endpoints_in_nodes nodes edges \<and> startNode_of nodes startNodeId = Some s \<longrightarrow>
      sorted (map (hop_distance (edgeRel edges) s)
                (visitOrder (bfsStepsDetailed nodes edges startNodeId))) \<and>
      set (visitOrder (bfsStepsDetailed nodes edges startNodeId)) \<subseteq> (edgeRel edges)\<^sup>* `` {s}) \<and>
   visitOrder (bfsStepsDetailed sampleNodes sampleEdges None) = [''A'', ''B'', ''C'', ''D'', ''E'']"
proof (intro conjI impI)
  assume a: "endpoints_in_nodes nodes edges \<and> startNode_of nodes startNodeId = Some s"
  let ?T = "bfsStepsDetailed nodes edges startNodeId"
  have "sorted (map (hop_distance (edgeRel edges) s) (visitOrder ?T)) \<and>
        set (visitOrder ?T) \<subseteq> (edgeRel edges)\<^sup>* `` {s}"
  proof (cases "s = []")
    case True
    with a have "?T = []" by (simp add: bfsStepsDetailed_def)
    then show ?thesis by (simp add: visitOrder_def)
  next
    case False
    from bfs_while_sorted[OF buildAdjacencyList_successors
        bfs_initial_inv[OF conjunct1[OF a], of s]]
    show ?thesis using a False by (simp add: bfsStepsDetailed_def)
  qed
  then show "sorted (map (hop_distance (edgeRel edges) s) (visitOrder ?T))"
    and "set (visitOrder ?T) \<subseteq> (edgeRel edges)\<^sup>* `` {s}" by simp_all
next
  show "visitOrder (bfsStepsDetailed sampleNodes sampleEdges None)
        = [''A'', ''B'', ''C'', ''D'', ''E'']"
    by (rule sample_bfs_visit_order)
qed


theorem bfs_visit_order_by_distance_witness:
  "endpoints_in_nodes sampleNodes sampleEdges \<and>
   startNode_of sampleNodes None = Some ''A'' \<and>
   sorted (map (hop_distance (edgeRel sampleEdges) ''A'') [''A'', ''B'', ''C'', ''D'', ''E''])"
proof -
  have s: "startNode_of sampleNodes None = Some ''A''"
    by (simp add: startNode_of_def js_truthy_def sampleNodes_def)
  from bfs_visit_order_by_distance[of sampleNodes sampleEdges None "''A''"] sample_endpoints s
  have "sorted (map (hop_distance (edgeRel sampleEdges) ''A'')
                (visitOrder (bfsStepsDetailed sampleNodes sampleEdges None)))"
    by blast
  then have "sorted (map (hop_distance (edgeRel sampleEdges) ''A'')
                [''A'', ''B'', ''C'', ''D'', ''E''])"
    unfolding sample_bfs_visit_order .
  with sample_endpoints s show ?thesis by blast
qed

subsection \<open>Dangling edge targets\<close>

definition bfs_rec_in :: "string set \<Rightarrow> string set \<Rightarrow> BFSStep \<Rightarrow> bool" where
  "bfs_rec_in R K r \<longleftrightarrow>
     b_currentNode r \<in> R \<and> set (b_queue r) \<subseteq> R \<and> keys_of (b_visited r) = K \<and>
     ones (b_visited r) \<subseteq> R"

definition bfs_reach_inv :: "string set \<Rightarrow> string set \<Rightarrow> bfs_state \<Rightarrow> bool" where
  "bfs_reach_inv R K st \<longleftrightarrow>
     (case st of (V, Q, steps) \<Rightarrow>
        keys_of V = K \<and> ones V \<subseteq> R \<and> set Q \<subseteq> R \<and> (\<forall>r \<in> set steps. bfs_rec_in R K r))"

lemma keys_of_map_set [simp]: "keys_of (map_set k v V) = insert k (keys_of V)"
  by (auto simp: keys_of_def)

lemma bfs_for_reach_inv:
  "bfs_reach_inv R K st \<Longrightarrow> u \<in> R \<Longrightarrow> \<forall>w \<in> set ws. w \<in> K \<longrightarrow> w \<in> R \<Longrightarrow>
   bfs_reach_inv R K (bfsStepsDetailed_for u ws st)"
proof (induction ws arbitrary: st)
  case Nil
  then show ?case by simp
next
  case (Cons w ws)
  obtain V Q steps where st: "st = (V, Q, steps)" by (cases st)
  from Cons.prems(3) have rest: "\<forall>x \<in> set ws. x \<in> K \<longrightarrow> x \<in> R" by simp
  show ?case
  proof (cases "map_get V w = Some 0")
    case True
    let ?st1 = "(map_set w 1 V, Q @ [w],
            steps @ [\<lparr>b_currentNode = u, b_queue = Q @ [w], b_visited = map_set w 1 V\<rparr>])"
    from Cons.prems(1) have k: "keys_of V = K" and o: "ones V \<subseteq> R" and q: "set Q \<subseteq> R"
      and rs: "\<forall>r \<in> set steps. bfs_rec_in R K r"
      by (simp_all add: bfs_reach_inv_def st)
    from True have wk: "w \<in> keys_of V" by (simp add: keys_of_def)
    with k Cons.prems(3) have wR: "w \<in> R" by simp
    have k1: "keys_of (map_set w 1 V) = K" using wk k by auto
    have o1: "ones (map_set w 1 V) \<subseteq> R" using o wR by simp
    have q1: "set (Q @ [w]) \<subseteq> R" using q wR by simp
    have "bfs_rec_in R K \<lparr>b_currentNode = u, b_queue = Q @ [w], b_visited = map_set w 1 V\<rparr>"
      unfolding bfs_rec_in_def using Cons.prems(2) q1 k1 o1 by simp
    with rs have rs1: "\<forall>r \<in> set (steps @
        [\<lparr>b_currentNode = u, b_queue = Q @ [w], b_visited = map_set w 1 V\<rparr>]). bfs_rec_in R K r"
      by simp
    have "bfs_reach_inv R K ?st1"
      unfolding bfs_reach_inv_def prod.case by (intro conjI k1 o1 q1 rs1)
    from Cons.IH[OF this Cons.prems(2) rest] True show ?thesis by (simp add: st)
  next
    case False
    with Cons.IH[OF Cons.prems(1,2) rest] show ?thesis by (simp add: st)
  qed
qed

lemma bfs_while_reach:
  "(\<And>u. u \<in> R \<Longrightarrow> \<forall>w \<in> set (get_or_empty adjList u). w \<in> K \<longrightarrow> w \<in> R) \<Longrightarrow>
   bfs_reach_inv R K st \<Longrightarrow>
   \<forall>r \<in> set (bfsStepsDetailed_while adjList st). bfs_rec_in R K r"
proof (induction adjList st rule: bfsStepsDetailed_while.induct)
  case (1 adjList visited queue steps)
  show ?case
  proof (cases queue)
    case Nil
    with "1.prems"(2) show ?thesis
      by (simp add: bfsStepsDetailed_while.simps bfs_reach_inv_def)
  next
    case (Cons u Q)
    let ?st0 = "(visited, Q, steps @ [\<lparr>b_currentNode = u, b_queue = Q, b_visited = visited\<rparr>])"
    from "1.prems"(2) Cons have k: "keys_of visited = K" and o: "ones visited \<subseteq> R"
      and q: "set Q \<subseteq> R" and uR: "u \<in> R"
      and rs: "\<forall>r \<in> set steps. bfs_rec_in R K r"
      by (simp_all add: bfs_reach_inv_def)
    have "bfs_rec_in R K \<lparr>b_currentNode = u, b_queue = Q, b_visited = visited\<rparr>"
      unfolding bfs_rec_in_def using uR q k o by simp
    with rs have rs0: "\<forall>r \<in> set (steps @
        [\<lparr>b_currentNode = u, b_queue = Q, b_visited = visited\<rparr>]). bfs_rec_in R K r"
      by simp
    have "bfs_reach_inv R K ?st0"
      unfolding bfs_reach_inv_def prod.case by (intro conjI k o q rs0)
    then have "bfs_reach_inv R K
        (bfsStepsDetailed_for u (get_or_empty adjList u) ?st0)"
      using uR "1.prems"(1)[OF uR] by (rule bfs_for_reach_inv)
    from "1.IH"[OF Cons "1.prems"(1) this] Cons show ?thesis
      by (simp add: bfsStepsDetailed_while.simps)
  qed
qed

lemma graphRel_reach_in_nodes:
  assumes "x \<in> (graphRel nodes edges)\<^sup>* `` {s}" and "s \<in> node_ids nodes"
  shows "x \<in> node_ids nodes"
proof -
  from assms(1) have "(s, x) \<in> (graphRel nodes edges)\<^sup>*" by simp
  then show ?thesis
    by (induction rule: rtrancl_induct) (use assms(2) in \<open>auto simp: graphRel_def\<close>)
qed

lemma bfs_trace_records:
  assumes s: "startNode_of nodes startNodeId = Some s" "s \<in> node_ids nodes"
  shows "\<forall>r \<in> set (bfsStepsDetailed nodes edges startNodeId).
           bfs_rec_in ((graphRel nodes edges)\<^sup>* `` {s}) (node_ids nodes) r"
proof (cases "s = []")
  case True
  with s(1) show ?thesis by (simp add: bfsStepsDetailed_def)
next
  case False
  let ?R = "(graphRel nodes edges)\<^sup>* `` {s}" and ?K = "node_ids nodes"
  let ?V = "map_set s 1 (init_visited nodes)"
  let ?r0 = "\<lparr>b_currentNode = s, b_queue = [s], b_visited = ?V\<rparr>"
  have closed: "\<forall>w \<in> set (get_or_empty (buildAdjacencyList edges) u). w \<in> ?K \<longrightarrow> w \<in> ?R"
    if "u \<in> ?R" for u
  proof (intro ballI impI)
    fix w assume w: "w \<in> set (get_or_empty (buildAdjacencyList edges) u)" "w \<in> ?K"
    from that s(2) have "u \<in> ?K" by (rule graphRel_reach_in_nodes)
    with w have "(u, w) \<in> graphRel nodes edges"
      using buildAdjacencyList_successors[of edges u] by (auto simp: graphRel_def)
    with that show "w \<in> ?R" by (auto intro: rtrancl_into_rtrancl)
  qed
  have k: "keys_of ?V = ?K" using s(2) by (auto simp: keys_of_init_visited)
  have o: "ones ?V \<subseteq> ?R" by (simp add: ones_init_visited)
  have q: "set [s] \<subseteq> ?R" by simp
  have "bfs_rec_in ?R ?K ?r0" unfolding bfs_rec_in_def using k o by simp
  then have rs: "\<forall>r \<in> set [?r0]. bfs_rec_in ?R ?K r" by simp
  have "bfs_reach_inv ?R ?K (?V, [s], [?r0])"
    unfolding bfs_reach_inv_def prod.case by (intro conjI k o q rs)
  from bfs_while_reach[of ?R "buildAdjacencyList edges" ?K, OF closed this] s(1) False
  show ?thesis by (simp add: bfsStepsDetailed_def)
qed

lemma hasCycle_through_dangling:
  "hasCycle dangling_nodes dangling_edges \<and> \<not> hasCycle dangling_nodes (take 1 dangling_edges)"
  by code_simp

text \<open>
  C10. Let the start node be a listed node and let \<open>d\<close> be an id that is not in the node list
  (such as the target of a dangling edge). Then no record of the DFS trace or of the BFS trace
  has \<open>d\<close> as current node or on its stack or queue, the visited map of every record has no
  entry for \<open>d\<close> (so never the entry 1), and every current node is reachable from the start
  along edges between listed nodes only: the traversal never continues beyond \<open>d\<close>. The
  cycle detector does follow dangling targets: with the single node A and the edges
  A\<rightarrow>X, X\<rightarrow>A it reports a cycle, and without the edge leaving X it does not.
\<close>

theorem dangling_target_not_traversed:
  "(startNode_of nodes startNodeId = Some s \<and> s \<in> node_ids nodes \<and> d \<notin> node_ids nodes \<longrightarrow>
      (\<forall>r \<in> set (dfsStepsDetailed nodes edges startNodeId).
         d_currentNode r \<noteq> d \<and> d \<notin> set (d_stack r) \<and> map_get (d_visited r) d = None \<and>
         d_currentNode r \<in> (graphRel nodes edges)\<^sup>* `` {s}) \<and>
      (\<forall>r \<in> set (bfsStepsDetailed nodes edges startNodeId).
         b_currentNode r \<noteq> d \<and> d \<notin> set (b_queue r) \<and> map_get (b_visited r) d = None \<and>
         b_currentNode r \<in> (graphRel nodes edges)\<^sup>* `` {s})) \<and>
   hasCycle dangling_nodes dangling_edges \<and> \<not> hasCycle dangling_nodes (take 1 dangling_edges)"
proof (intro conjI impI ballI)
  fix r
  assume a: "startNode_of nodes startNodeId = Some s \<and> s \<in> node_ids nodes \<and> d \<notin> node_ids nodes"
    and r: "r \<in> set (dfsStepsDetailed nodes edges startNodeId)"
  let ?R = "(graphRel nodes edges)\<^sup>* `` {s}"
  from a have s: "startNode_of nodes startNodeId = Some s" "s \<in> node_ids nodes"
    and d: "d \<notin> node_ids nodes" by simp_all
  have dR: "d \<notin> ?R" using graphRel_reach_in_nodes[OF _ s(2)] d by blast
  have ne: "s \<noteq> []" using r s(1) by (auto simp: dfsStepsDetailed_def)
  from dfs_trace_records[OF s(1) ne s(2), of edges] r
  have ok: "rec_ok (init_visited nodes) (dfs_final_visited nodes edges s) [] r" by blast
  note new = dfs_new_nodes_reachable_set[OF s(2), of edges]
  from ok have cur: "d_currentNode r \<in> ?R" and stk: "set (d_stack r) \<subseteq> ?R"
    and le: "vis_le (init_visited nodes) (d_visited r)"
    unfolding new[symmetric] by (auto simp: rec_ok_def)
  show "d_currentNode r \<in> ?R" by (rule cur)
  show "d_currentNode r \<noteq> d" using cur dR by blast
  show "d \<notin> set (d_stack r)" using stk dR by blast
  have "map_get (init_visited nodes) d = None" using d by (simp add: init_visited_get)
  with vis_le_None[OF le, of d] show "map_get (d_visited r) d = None" by simp
next
  fix r
  assume a: "startNode_of nodes startNodeId = Some s \<and> s \<in> node_ids nodes \<and> d \<notin> node_ids nodes"
    and r: "r \<in> set (bfsStepsDetailed nodes edges startNodeId)"
  let ?R = "(graphRel nodes edges)\<^sup>* `` {s}"
  from a have s: "startNode_of nodes startNodeId = Some s" "s \<in> node_ids nodes"
    and d: "d \<notin> node_ids nodes" by simp_all
  have dR: "d \<notin> ?R" using graphRel_reach_in_nodes[OF _ s(2)] d by blast
  from bfs_trace_records[OF s, of edges] r
  have ok: "bfs_rec_in ?R (node_ids nodes) r" by blast
  then have cur: "b_currentNode r \<in> ?R" and q: "set (b_queue r) \<subseteq> ?R"
    and k: "keys_of (b_visited r) = node_ids nodes"
    by (simp_all add: bfs_rec_in_def)
  show "b_currentNode r \<in> ?R" by (rule cur)
  show "b_currentNode r \<noteq> d" using cur dR by blast
  show "d \<notin> set (b_queue r)" using q dR by blast
  from k d have "d \<notin> keys_of (b_visited r)" by simp
  then show "map_get (b_visited r) d = None" by (simp add: keys_of_def)
next
  show "hasCycle dangling_nodes dangling_edges"
    using hasCycle_through_dangling by (rule conjunct1)
  show "\<not> hasCycle dangling_nodes (take 1 dangling_edges)"
    using hasCycle_through_dangling by (rule conjunct2)
qed

theorem dangling_target_not_traversed_witness:
  "startNode_of dangling_nodes None = Some ''A'' \<and> ''A'' \<in> node_ids dangling_nodes \<and>
   ''X'' \<notin> node_ids dangling_nodes \<and>
   list_all (\<lambda>r. d_currentNode r \<noteq> ''X'' \<and> ''X'' \<notin> set (d_stack r) \<and>
                  map_get (d_visited r) ''X'' = None)
     (dfsStepsDetailed dangling_nodes dangling_edges None) \<and>
   list_all (\<lambda>r. b_currentNode r \<noteq> ''X'' \<and> ''X'' \<notin> set (b_queue r) \<and>
                  map_get (b_visited r) ''X'' = None)
     (bfsStepsDetailed dangling_nodes dangling_edges None)"
proof -
  have s: "startNode_of dangling_nodes None = Some ''A''"
    by (simp add: startNode_of_def js_truthy_def dangling_nodes_def)
  have a: "''A'' \<in> node_ids dangling_nodes" by (simp add: node_ids_def dangling_nodes_def)
  have x: "''X'' \<notin> node_ids dangling_nodes" by (simp add: node_ids_def dangling_nodes_def)
  from dangling_target_not_traversed[of dangling_nodes None "''A''" "''X''" dangling_edges] s a x
  have 1: "\<forall>r \<in> set (dfsStepsDetailed dangling_nodes dangling_edges None).
         d_currentNode r \<noteq> ''X'' \<and> ''X'' \<notin> set (d_stack r) \<and>
         map_get (d_visited r) ''X'' = None"
    and 2: "\<forall>r \<in> set (bfsStepsDetailed dangling_nodes dangling_edges None).
         b_currentNode r \<noteq> ''X'' \<and> ''X'' \<notin> set (b_queue r) \<and>
         map_get (b_visited r) ''X'' = None"
    by blast+
  from 1 2 s a x show ?thesis unfolding list_all_iff by blast
qed

subsection \<open>Empty node list\<close>

lemma empty_node_list_topo: "topologicalSortStepsDetailed [] edges = []"
  by (simp add: topologicalSortStepsDetailed_def new_Set_def)

lemma empty_node_list_no_start:
  assumes "\<not> js_truthy startNodeId"
  shows "dfsStepsDetailed [] edges startNodeId = []"
    and "bfsStepsDetailed [] edges startNodeId = []"
  using assms by (simp_all add: dfsStepsDetailed_def bfsStepsDetailed_def startNode_of_def)

lemma empty_node_list_start:
  assumes "startNodeId = Some s" and "s \<noteq> []"
  shows "dfsStepsDetailed [] edges startNodeId \<noteq> []"
    and "bfsStepsDetailed [] edges startNodeId \<noteq> []"
proof -
  have st: "startNode_of [] startNodeId = Some s"
    using assms by (simp add: startNode_of_def js_truthy_def)
  show "dfsStepsDetailed [] edges startNodeId \<noteq> []"
    unfolding dfsStepsDetailed_start[OF st assms(2)] dfs_emitted_eq by simp
  let ?V = "map_set s 1 (init_visited [])"
  let ?r0 = "\<lparr>b_currentNode = s, b_queue = [s], b_visited = ?V\<rparr>"
  from bfs_while_extends[of "buildAdjacencyList edges" ?V "[s]" "[?r0]"]
  show "bfsStepsDetailed [] edges startNodeId \<noteq> []"
    using st assms(2) by (auto simp: bfsStepsDetailed_def)
qed

text \<open>
  C9. For an empty node list, whatever the edge list, \<open>topologicalSortStepsDetailed\<close> returns
  the empty trace, and \<open>dfsStepsDetailed\<close> and \<open>bfsStepsDetailed\<close> return the empty trace exactly
  when no start id is given (it is absent, or the empty string, which the source treats as
  absent). The model has no error branch: the source raises nowhere.
\<close>

theorem empty_node_list_traces:
  "topologicalSortStepsDetailed [] edges = [] \<and>
   (dfsStepsDetailed [] edges startNodeId = [] \<longleftrightarrow> \<not> js_truthy startNodeId) \<and>
   (bfsStepsDetailed [] edges startNodeId = [] \<longleftrightarrow> \<not> js_truthy startNodeId)"
proof (cases "js_truthy startNodeId")
  case False
  with empty_node_list_topo[of edges] empty_node_list_no_start[OF False, of edges]
  show ?thesis by simp
next
  case True
  then obtain s where s: "startNodeId = Some s" "s \<noteq> []"
    by (cases startNodeId) (auto simp: js_truthy_def)
  from empty_node_list_topo[of edges] empty_node_list_start[OF s, of edges] True
  show ?thesis by simp
qed

theorem empty_node_list_traces_witness:
  "\<not> js_truthy None \<and> topologicalSortStepsDetailed [] [] = [] \<and>
   dfsStepsDetailed [] [] None = [] \<and> bfsStepsDetailed [] [] None = []"
proof -
  have f: "\<not> js_truthy None" by (simp add: js_truthy_def)
  from empty_node_list_traces[of "[]" None] f show ?thesis by blast
qed

text \<open>
  With a start id, the depth-first and breadth-first generators return a non-empty trace for
  the empty graph: the start id is traversed although it is not a node.
\<close>

theorem empty_node_list_counterexample:
  "dfsStepsDetailed [] [] (Some ''A'') =
     [\<lparr>d_currentNode = ''A'', d_stack = [''A''], d_visited = []\<rparr>,
      \<lparr>d_currentNode = ''A'', d_stack = [''A''], d_visited = [(''A'', 1)]\<rparr>,
      \<lparr>d_currentNode = ''A'', d_stack = [], d_visited = [(''A'', 1)]\<rparr>] \<and>
   bfsStepsDetailed [] [] (Some ''A'') =
     [\<lparr>b_currentNode = ''A'', b_queue = [''A''], b_visited = [(''A'', 1)]\<rparr>,
      \<lparr>b_currentNode = ''A'', b_queue = [], b_visited = [(''A'', 1)]\<rparr>]"
  by code_simp

end
